theory Spec2Isabelle
  imports Main "HOL-Library.Sublist" "HOL-Library.List_Lexorder" "HOL-Library.Char_ord"
    "HOL-Library.Multiset"
begin

section \<open>The network search scope (front_end/panels/network/NetworkSearchScope.ts)\<close>

text \<open>
  A shallow embedding of \<^verbatim>\<open>NetworkSearchScope\<close>, \<^verbatim>\<open>UIRequestLocation\<close> and
  \<^verbatim>\<open>NetworkSearchResult\<close>. Everything the file only calls (the regular expression engine
  of the language, the request log, the body search of a request, the progress indicator,
  the locale-aware string comparison, the localized label) is a field of the environment
  record \<open>env\<close> below; the code of the file itself is translated function by function.
  JavaScript strings are modelled as \<open>string\<close>, one \<open>char\<close> per code unit.
\<close>

subsection \<open>Data of the collaborators\<close>

text \<open>\<^verbatim>\<open>SDK.NetworkRequest.NameValue\<close>: a header.\<close>

record nameValue =
  name :: string
  hvalue :: string

text \<open>\<^verbatim>\<open>TextUtils.ContentProvider.SearchMatch\<close>: one matching line of a body.\<close>

record searchMatch =
  lineNumber :: int
  lineContent :: string

text \<open>
  \<^verbatim>\<open>SDK.NetworkRequest.NetworkRequest\<close>, with the members the search scope reads:
  \<^verbatim>\<open>url()\<close>, \<^verbatim>\<open>displayName\<close>, \<^verbatim>\<open>contentType().isTextType()\<close>,
  \<^verbatim>\<open>requestHeaders()\<close> and \<^verbatim>\<open>responseHeaders\<close>.
\<close>

record networkRequest =
  url :: string
  displayName :: string
  isTextType :: bool
  requestHeaders :: "nameValue list"
  responseHeaders :: "nameValue list"

text \<open>\<^verbatim>\<open>Search.SearchConfig.SearchConfig\<close>: the query configuration.\<close>

record searchConfig =
  query :: string
  queries :: "string list"
  ignoreCase :: bool
  isRegex :: bool
  filePathMatchesFileQuery :: "string \<Rightarrow> bool"

text \<open>
  The exceptions of the language runtime that the code can run into: \<^verbatim>\<open>new RegExp\<close>
  throws a SyntaxError on a pattern that does not compile, and reading a property of
  \<^verbatim>\<open>undefined\<close> or \<^verbatim>\<open>null\<close> throws a TypeError.
\<close>

datatype error = SyntaxError | TypeError

text \<open>
  The environment of one run. \<open>'re\<close> is the type of compiled regular expressions.
  \<^item> \<open>RegExp_new q flags\<close> is \<^verbatim>\<open>new RegExp(q, flags)\<close>; \<open>None\<close> when it throws.
  \<^item> \<open>str_match re s\<close> is \<^verbatim>\<open>s.match(re)\<close> for a regular expression without the
    global flag: \<open>None\<close> for \<^verbatim>\<open>null\<close>, otherwise the pair of \<^verbatim>\<open>match.index\<close> and
    \<^verbatim>\<open>match[0]\<close>.
  \<^item> \<open>localeCompare a b\<close> is \<^verbatim>\<open>a.localeCompare(b)\<close>.
  \<^item> \<open>searchInContent request q caseSensitive isRegex\<close> is the value the promise of
    \<^verbatim>\<open>request.searchInContent(q, caseSensitive, isRegex)\<close> resolves to. When it resolves
    is decided by the schedule of a run (see \<open>resumeAll\<close>); the code handles no rejection
    of it, and none is modelled.
  \<^item> \<open>requests\<close> is \<^verbatim>\<open>SDK.NetworkLog.NetworkLog.instance().requests()\<close>.
  \<^item> \<open>isCanceled k\<close> is what the \<open>k\<close>-th call of \<^verbatim>\<open>progress.isCanceled()\<close> of the run
    returns, counting from 0: cancellation is decided outside the code and polled.
  \<^item> \<open>i18n_url\<close> is \<^verbatim>\<open>i18nString(UIStrings.url)\<close>.
\<close>

record 're env =
  RegExp_new :: "string \<Rightarrow> string \<Rightarrow> 're option"
  str_match :: "'re \<Rightarrow> string \<Rightarrow> (nat \<times> string) option"
  localeCompare :: "string \<Rightarrow> string \<Rightarrow> int"
  searchInContent :: "networkRequest \<Rightarrow> string \<Rightarrow> bool \<Rightarrow> bool \<Rightarrow> searchMatch list"
  requests :: "networkRequest list"
  isCanceled :: "nat \<Rightarrow> bool"
  i18n_url :: string

subsection \<open>UIRequestLocation\<close>

record uiRequestLocation =
  request :: networkRequest
  requestHeader :: "nameValue option"
  responseHeader :: "nameValue option"
  searchMatch :: "searchMatch option"
  isUrlMatch :: bool

definition requestHeaderMatch :: "networkRequest \<Rightarrow> nameValue option \<Rightarrow> uiRequestLocation" where
  "requestHeaderMatch rq header =
     \<lparr>request = rq, requestHeader = header, responseHeader = None, searchMatch = None,
      isUrlMatch = False\<rparr>"

definition responseHeaderMatch :: "networkRequest \<Rightarrow> nameValue option \<Rightarrow> uiRequestLocation" where
  "responseHeaderMatch rq header =
     \<lparr>request = rq, requestHeader = None, responseHeader = header, searchMatch = None,
      isUrlMatch = False\<rparr>"

definition bodyMatch :: "networkRequest \<Rightarrow> searchMatch option \<Rightarrow> uiRequestLocation" where
  "bodyMatch rq sm =
     \<lparr>request = rq, requestHeader = None, responseHeader = None, searchMatch = sm,
      isUrlMatch = False\<rparr>"

definition urlMatch :: "networkRequest \<Rightarrow> uiRequestLocation" where
  "urlMatch rq =
     \<lparr>request = rq, requestHeader = None, responseHeader = None, searchMatch = None,
      isUrlMatch = True\<rparr>"

subsection \<open>The multi-token matcher of \<^verbatim>\<open>_searchRequest\<close>\<close>

text \<open>
  \<^verbatim>\<open>searchConfig.queries().map(query => new RegExp(query, flags))\<close>: every token is
  compiled, in order, before the first one is tried; the first token that does not
  compile throws.
\<close>

fun compileAll :: "(string \<Rightarrow> 're option) \<Rightarrow> string list \<Rightarrow> error + 're list" where
  "compileAll mk [] = Inr []"
| "compileAll mk (q # qs) =
     (case mk q of
        None \<Rightarrow> Inl SyntaxError
      | Some re \<Rightarrow> (case compileAll mk qs of Inl e \<Rightarrow> Inl e | Inr res \<Rightarrow> Inr (re # res)))"

text \<open>
  The loop over \<^verbatim>\<open>regExps\<close>, from the position \<open>pos\<close> on:
  \<^verbatim>\<open>
      const match = string.substr(pos).match(regExp);
      if (!match || !match.index) { return false; }
      pos += match.index + match[0].length;
  \<close>
  \<^verbatim>\<open>!match.index\<close> holds exactly when the index is 0.
\<close>

fun matchLoop :: "('re \<Rightarrow> string \<Rightarrow> (nat \<times> string) option) \<Rightarrow> string \<Rightarrow> nat \<Rightarrow> 're list \<Rightarrow> bool" where
  "matchLoop ex s pos [] = True"
| "matchLoop ex s pos (re # res) =
     (case ex re (drop pos s) of
        None \<Rightarrow> False
      | Some (i, m) \<Rightarrow> if i = 0 then False else matchLoop ex s (pos + i + length m) res)"

text \<open>
  The first two lines of \<^verbatim>\<open>stringMatchesQuery\<close>: the flags are \<^verbatim>\<open>'i'\<close> or empty,
  whatever \<^verbatim>\<open>searchConfig.isRegex()\<close> is, and every token goes through \<^verbatim>\<open>new RegExp\<close>.
\<close>

definition regExpsOf :: "'re env \<Rightarrow> searchConfig \<Rightarrow> error + 're list" where
  "regExpsOf env cfg =
     (let flags = (if ignoreCase cfg then ''i'' else '''')
      in compileAll (\<lambda>q. RegExp_new env q flags) (queries cfg))"

definition stringMatchesQuery :: "'re env \<Rightarrow> searchConfig \<Rightarrow> string \<Rightarrow> error + bool" where
  "stringMatchesQuery env cfg s =
     (case regExpsOf env cfg of
        Inl e \<Rightarrow> Inl e
      | Inr regExps \<Rightarrow> Inr (matchLoop (str_match env) s 0 regExps))"

definition headerMatchesQuery :: "'re env \<Rightarrow> searchConfig \<Rightarrow> nameValue \<Rightarrow> error + bool" where
  "headerMatchesQuery env cfg header = stringMatchesQuery env cfg (name header @ '': '' @ hvalue header)"

subsection \<open>NetworkSearchResult\<close>

record networkSearchResult =
  res_request :: networkRequest
  res_locations :: "uiRequestLocation list"

definition matchesCount :: "networkSearchResult \<Rightarrow> nat" where
  "matchesCount r = length (res_locations r)"

definition label :: "networkSearchResult \<Rightarrow> string" where
  "label r = displayName (res_request r)"

text \<open>
  \<^verbatim>\<open>matchLineContent(index)\<close>. An index outside the array reads \<^verbatim>\<open>undefined\<close>, whose
  \<^verbatim>\<open>isUrlMatch\<close> cannot be read; so does \<^verbatim>\<open>lineContent\<close> of a \<^verbatim>\<open>searchMatch\<close> that is
  \<^verbatim>\<open>null\<close>. \<^verbatim>\<open>location.requestHeader || location.responseHeader\<close> is the request header
  unless that is \<^verbatim>\<open>null\<close>.
\<close>

definition headerOf :: "uiRequestLocation \<Rightarrow> nameValue option" where
  "headerOf location =
     (case requestHeader location of Some h \<Rightarrow> Some h | None \<Rightarrow> responseHeader location)"

definition matchLineContent :: "networkSearchResult \<Rightarrow> nat \<Rightarrow> error + string" where
  "matchLineContent r index =
     (if index < length (res_locations r) then
        (let location = res_locations r ! index in
         if isUrlMatch location then Inr (url (res_request r))
         else case headerOf location of
                Some header \<Rightarrow> Inr (hvalue header)
              | None \<Rightarrow> (case searchMatch location of
                           None \<Rightarrow> Inl TypeError
                         | Some sm \<Rightarrow> Inr (lineContent sm)))
      else Inl TypeError)"

text \<open>
  \<^verbatim>\<open>matchLabel(index)\<close> returns a string for a URL or a header and, for a body match, the
  number \<^verbatim>\<open>lineNumber + 1\<close>.
\<close>

datatype labelValue = LabelString string | LabelNumber int

definition matchLabel :: "'re env \<Rightarrow> networkSearchResult \<Rightarrow> nat \<Rightarrow> error + labelValue" where
  "matchLabel env r index =
     (if index < length (res_locations r) then
        (let location = res_locations r ! index in
         if isUrlMatch location then Inr (LabelString (i18n_url env))
         else case headerOf location of
                Some header \<Rightarrow> Inr (LabelString (name header @ '':''))
              | None \<Rightarrow> (case searchMatch location of
                           None \<Rightarrow> Inl TypeError
                         | Some sm \<Rightarrow> Inr (LabelNumber (lineNumber sm + 1))))
      else Inl TypeError)"

subsection \<open>Effects: the progress indicator and the two callbacks\<close>

text \<open>
  What a run does to the outside is recorded as a trace of events, in the order of the
  calls: \<^verbatim>\<open>progress.setTotalWork(n)\<close>, \<^verbatim>\<open>progress.worked()\<close>, \<^verbatim>\<open>progress.done()\<close>,
  \<^verbatim>\<open>searchResultCallback(result)\<close> and \<^verbatim>\<open>searchFinishedCallback(b)\<close>. \<open>calls\<close> counts the
  calls of \<^verbatim>\<open>progress.isCanceled()\<close> made so far.
\<close>

datatype event =
    SetTotalWork nat
  | Worked
  | Done
  | SearchResultCallback networkSearchResult
  | SearchFinishedCallback bool

record world =
  calls :: nat
  trace :: "event list"

definition init_world :: world where
  "init_world = \<lparr>calls = 0, trace = []\<rparr>"

definition emit :: "event \<Rightarrow> world \<Rightarrow> world" where
  "emit e w = w\<lparr>trace := trace w @ [e]\<rparr>"

definition progress_isCanceled :: "'re env \<Rightarrow> world \<Rightarrow> bool \<times> world" where
  "progress_isCanceled env w = (isCanceled env (calls w), w\<lparr>calls := Suc (calls w)\<rparr>)"

subsection \<open>\<^verbatim>\<open>_searchRequest\<close>\<close>

text \<open>
  The two loops over the headers, \<open>mk\<close> being \<^verbatim>\<open>UIRequestLocation.requestHeaderMatch\<close> or
  \<^verbatim>\<open>UIRequestLocation.responseHeaderMatch\<close> of the request, and the loop over the body
  matches. \<^verbatim>\<open>locations.push(x)\<close> appends at the end.
\<close>

fun pushHeaders ::
  "'re env \<Rightarrow> searchConfig \<Rightarrow> (nameValue option \<Rightarrow> uiRequestLocation) \<Rightarrow> nameValue list \<Rightarrow>
   uiRequestLocation list \<Rightarrow> error + uiRequestLocation list" where
  "pushHeaders env cfg mk [] locations = Inr locations"
| "pushHeaders env cfg mk (header # hs) locations =
     (case headerMatchesQuery env cfg header of
        Inl e \<Rightarrow> Inl e
      | Inr b \<Rightarrow> pushHeaders env cfg mk hs (if b then locations @ [mk (Some header)] else locations))"

fun pushBodyMatches ::
  "networkRequest \<Rightarrow> searchMatch list \<Rightarrow> uiRequestLocation list \<Rightarrow> uiRequestLocation list" where
  "pushBodyMatches rq [] locations = locations"
| "pushBodyMatches rq (m # ms) locations = pushBodyMatches rq ms (locations @ [bodyMatch rq (Some m)])"

text \<open>
  \<^verbatim>\<open>_searchRequest\<close> from the point where the body matches are there: for a request that
  is not of a text type that is the call itself, for one of a text type it is the moment
  the promise of \<^verbatim>\<open>searchInContent\<close> resolves and the task resumes. The result is the
  value the returned promise settles to: \<open>Inl\<close> when it rejects, \<open>Inr None\<close> for
  \<^verbatim>\<open>null\<close>.
\<close>

definition searchRequest ::
  "'re env \<Rightarrow> searchConfig \<Rightarrow> networkRequest \<Rightarrow> world \<Rightarrow> (error + networkSearchResult option) \<times> world" where
  "searchRequest env cfg rq w =
     (let bodyMatches =
            (if isTextType rq
             then searchInContent env rq (query cfg) (\<not> ignoreCase cfg) (isRegex cfg)
             else []);
          (canceled, w1) = progress_isCanceled env w
      in if canceled then (Inr None, w1)
         else
           case stringMatchesQuery env cfg (url rq) of
             Inl e \<Rightarrow> (Inl e, w1)
           | Inr um \<Rightarrow>
           (case pushHeaders env cfg (requestHeaderMatch rq) (requestHeaders rq)
                   (if um then [urlMatch rq] else []) of
              Inl e \<Rightarrow> (Inl e, w1)
            | Inr locations1 \<Rightarrow>
            (case pushHeaders env cfg (responseHeaderMatch rq) (responseHeaders rq) locations1 of
               Inl e \<Rightarrow> (Inl e, w1)
             | Inr locations2 \<Rightarrow>
                 (Inr (Some \<lparr>res_request = rq,
                             res_locations = pushBodyMatches rq bodyMatches locations2\<rparr>),
                  emit Worked w1))))"

subsection \<open>\<^verbatim>\<open>performSearch\<close>\<close>

text \<open>The state of a promise.\<close>

datatype 'a promise = Pending | Fulfilled 'a | Rejected error

definition settle :: "error + 'a \<Rightarrow> 'a promise" where
  "settle out = (case out of Inl e \<Rightarrow> Rejected e | Inr v \<Rightarrow> Fulfilled v)"

text \<open>
  \<^verbatim>\<open>Promise.all\<close>: rejected as soon as one promise is rejected, pending while none is
  rejected and one is pending, fulfilled with the values in the order of the array
  otherwise.
\<close>

fun promiseAll :: "'a promise list \<Rightarrow> 'a list promise" where
  "promiseAll [] = Fulfilled []"
| "promiseAll (p # ps) =
     (case p of
        Rejected e \<Rightarrow> Rejected e
      | Pending \<Rightarrow> (case promiseAll ps of Rejected e \<Rightarrow> Rejected e | _ \<Rightarrow> Pending)
      | Fulfilled v \<Rightarrow>
          (case promiseAll ps of
             Fulfilled vs \<Rightarrow> Fulfilled (v # vs)
           | Rejected e \<Rightarrow> Rejected e
           | Pending \<Rightarrow> Pending))"

text \<open>
  The loop that starts the tasks. An \<^verbatim>\<open>async\<close> function runs synchronously up to its
  first \<^verbatim>\<open>await\<close>: the task of a request that is not of a text type runs to its end inside
  the loop, the task of a request of a text type is suspended at
  \<^verbatim>\<open>await request.searchInContent(...)\<close> and its promise is pending.
\<close>

fun launch ::
  "'re env \<Rightarrow> searchConfig \<Rightarrow> networkRequest list \<Rightarrow> networkSearchResult option promise list \<Rightarrow>
   world \<Rightarrow> networkSearchResult option promise list \<times> world" where
  "launch env cfg [] promises w = (promises, w)"
| "launch env cfg (rq # rqs) promises w =
     (if isTextType rq then launch env cfg rqs (promises @ [Pending]) w
      else (let (out, w') = searchRequest env cfg rq w
            in launch env cfg rqs (promises @ [settle out]) w'))"

text \<open>
  The suspended tasks resume one at a time, in the order in which their body searches
  resolve. That order is not the code's to choose: it is the list \<open>sched\<close> of task
  indices. An index that names no suspended task is skipped, and a task that \<open>sched\<close>
  never names stays suspended.
\<close>

definition resume ::
  "'re env \<Rightarrow> searchConfig \<Rightarrow> networkRequest list \<Rightarrow> nat \<Rightarrow>
   networkSearchResult option promise list \<times> world \<Rightarrow> networkSearchResult option promise list \<times> world" where
  "resume env cfg reqs i st =
     (case st of (promises, w) \<Rightarrow>
        if i < length promises \<and> i < length reqs \<and> promises ! i = Pending then
          (let (out, w') = searchRequest env cfg (reqs ! i) w
           in (promises[i := settle out], w'))
        else (promises, w))"

fun resumeAll ::
  "'re env \<Rightarrow> searchConfig \<Rightarrow> networkRequest list \<Rightarrow> nat list \<Rightarrow>
   networkSearchResult option promise list \<times> world \<Rightarrow> networkSearchResult option promise list \<times> world" where
  "resumeAll env cfg reqs [] st = st"
| "resumeAll env cfg reqs (i # sched) st = resumeAll env cfg reqs sched (resume env cfg reqs i st)"

text \<open>
  \<^verbatim>\<open>Array.prototype.sort\<close> with a comparison function is a stable sort; on a consistent
  comparison function every implementation returns what this insertion sort returns.
\<close>

fun insertSorted :: "('a \<Rightarrow> 'a \<Rightarrow> int) \<Rightarrow> 'a \<Rightarrow> 'a list \<Rightarrow> 'a list" where
  "insertSorted cmp x [] = [x]"
| "insertSorted cmp x (y # ys) = (if cmp x y \<le> 0 then x # y # ys else y # insertSorted cmp x ys)"

definition arraySort :: "('a \<Rightarrow> 'a \<Rightarrow> int) \<Rightarrow> 'a list \<Rightarrow> 'a list" where
  "arraySort cmp xs = foldr (insertSorted cmp) xs []"

text \<open>\<^verbatim>\<open>resultsWithNull.filter(result => result !== null)\<close>.\<close>

fun nonNull :: "'a option list \<Rightarrow> 'a list" where
  "nonNull [] = []"
| "nonNull (None # xs) = nonNull xs"
| "nonNull (Some x # xs) = x # nonNull xs"

text \<open>The loop that hands the sorted results to \<^verbatim>\<open>searchResultCallback\<close>.\<close>

fun emitResults :: "networkSearchResult list \<Rightarrow> world \<Rightarrow> world" where
  "emitResults [] w = w"
| "emitResults (result # rs) w =
     emitResults rs (if matchesCount result > 0 then emit (SearchResultCallback result) w else w)"

definition candidates :: "'re env \<Rightarrow> searchConfig \<Rightarrow> networkRequest list" where
  "candidates env cfg = filter (\<lambda>rq. filePathMatchesFileQuery cfg (url rq)) (requests env)"

text \<open>
  A run of \<^verbatim>\<open>performSearch\<close>, from the first call on the progress indicator to the end.
  The first component is the state of the promise that \<^verbatim>\<open>performSearch\<close> returns:
  \<open>Fulfilled ()\<close> when it returned, \<open>Rejected e\<close> when \<^verbatim>\<open>await Promise.all(promises)\<close>
  threw, \<open>Pending\<close> when that \<^verbatim>\<open>await\<close> never resumes. A task that is still suspended when
  \<^verbatim>\<open>Promise.all\<close> rejects resumes later all the same; it is run here before the outcome
  of \<^verbatim>\<open>Promise.all\<close> is looked at, which gives the same trace, since a rejected
  \<^verbatim>\<open>performSearch\<close> calls nothing more.
\<close>

definition performSearch :: "'re env \<Rightarrow> searchConfig \<Rightarrow> nat list \<Rightarrow> unit promise \<times> world" where
  "performSearch env cfg sched =
     (let reqs = candidates env cfg;
          w1 = emit (SetTotalWork (length reqs)) init_world;
          (promises, w3) = resumeAll env cfg reqs sched (launch env cfg reqs [] w1)
      in case promiseAll promises of
           Pending \<Rightarrow> (Pending, w3)
         | Rejected e \<Rightarrow> (Rejected e, w3)
         | Fulfilled resultsWithNull \<Rightarrow>
             (let results = nonNull resultsWithNull;
                  (canceled, w4) = progress_isCanceled env w3
              in if canceled then (Fulfilled (), emit (SearchFinishedCallback False) w4)
                 else
                   (Fulfilled (),
                    emit (SearchFinishedCallback True)
                      (emit Done
                         (emitResults
                            (arraySort (\<lambda>r1 r2. localeCompare env (label r1) (label r2)) results)
                            w4)))))"

text \<open>What a trace holds of each kind of call.\<close>

definition workedCalls :: "event list \<Rightarrow> nat" where
  "workedCalls tr = length (filter (\<lambda>e. e = Worked) tr)"

fun setTotalWorkCalls :: "event list \<Rightarrow> nat list" where
  "setTotalWorkCalls [] = []"
| "setTotalWorkCalls (SetTotalWork n # tr) = n # setTotalWorkCalls tr"
| "setTotalWorkCalls (e # tr) = setTotalWorkCalls tr"

fun resultCalls :: "event list \<Rightarrow> networkSearchResult list" where
  "resultCalls [] = []"
| "resultCalls (SearchResultCallback r # tr) = r # resultCalls tr"
| "resultCalls (e # tr) = resultCalls tr"

fun finishedCalls :: "event list \<Rightarrow> bool list" where
  "finishedCalls [] = []"
| "finishedCalls (SearchFinishedCallback b # tr) = b # finishedCalls tr"
| "finishedCalls (e # tr) = finishedCalls tr"

subsection \<open>The loop position after some tokens\<close>

text \<open>
  The value of the variable \<^verbatim>\<open>pos\<close> of \<^verbatim>\<open>stringMatchesQuery\<close> once the loop has gone
  through the tokens \<open>res\<close>, starting from \<open>pos\<close>; \<open>None\<close> when the loop has left with
  \<^verbatim>\<open>return false\<close> at one of them.
\<close>

fun posAfter :: "('re \<Rightarrow> string \<Rightarrow> (nat \<times> string) option) \<Rightarrow> string \<Rightarrow> nat \<Rightarrow> 're list \<Rightarrow> nat option" where
  "posAfter ex s pos [] = Some pos"
| "posAfter ex s pos (re # res) =
     (case ex re (drop pos s) of
        None \<Rightarrow> None
      | Some (i, m) \<Rightarrow> if i = 0 then None else posAfter ex s (pos + i + length m) res)"

subsection \<open>An engine for literal patterns\<close>

text \<open>
  For closed examples: the regular expression engine on patterns made of characters
  without a special meaning. Such a pattern matches at its leftmost occurrence in the
  string, and the match is the occurrence; with the flag \<^verbatim>\<open>i\<close> the letters A to Z are
  compared as a to z. A compiled expression is the pattern and whether case is ignored.
\<close>

fun indexOf :: "string \<Rightarrow> string \<Rightarrow> nat option" where
  "indexOf pat [] = (if pat = [] then Some 0 else None)"
| "indexOf pat (c # cs) =
     (if prefix pat (c # cs) then Some 0 else map_option Suc (indexOf pat cs))"

definition lowerChar :: "char \<Rightarrow> char" where
  "lowerChar c =
     (case map_of (zip ''ABCDEFGHIJKLMNOPQRSTUVWXYZ'' ''abcdefghijklmnopqrstuvwxyz'') c of
        Some d \<Rightarrow> d
      | None \<Rightarrow> c)"

definition literal_new :: "string \<Rightarrow> string \<Rightarrow> (string \<times> bool) option" where
  "literal_new q flags = Some (q, flags = ''i'')"

definition literal_match :: "string \<times> bool \<Rightarrow> string \<Rightarrow> (nat \<times> string) option" where
  "literal_match re s =
     (case re of (pat, ic) \<Rightarrow>
        (case (if ic then indexOf (map lowerChar pat) (map lowerChar s) else indexOf pat s) of
           None \<Rightarrow> None
         | Some i \<Rightarrow> Some (i, take (length pat) (drop i s))))"

text \<open>
  The comparison of strings by code units, which is how \<^verbatim>\<open>localeCompare\<close> orders
  lower-case ASCII file names that differ in a letter.
\<close>

definition codeUnitCompare :: "string \<Rightarrow> string \<Rightarrow> int" where
  "codeUnitCompare a b = (if a < b then - 1 else if a = b then 0 else 1)"

subsection \<open>Notions used in the statements\<close>

text \<open>
  The number of discriminating fields of a location that are set is one: \<^verbatim>\<open>isUrlMatch\<close> is
  true, or \<^verbatim>\<open>requestHeader\<close>, \<^verbatim>\<open>responseHeader\<close> or \<^verbatim>\<open>searchMatch\<close> is not \<^verbatim>\<open>null\<close>.
\<close>

definition exactlyOneVariant :: "uiRequestLocation \<Rightarrow> bool" where
  "exactlyOneVariant location =
     ((if isUrlMatch location then 1 else 0) +
      (if requestHeader location = None then 0 else 1) +
      (if responseHeader location = None then 0 else 1) +
      (if searchMatch location = None then 0 else (1::nat)) = 1)"

text \<open>
  A comparison function is consistent when the relation ``\<open>cmp a b \<le> 0\<close>'' is total and
  transitive, as that of a collation is.
\<close>

definition consistentCompare :: "('a \<Rightarrow> 'a \<Rightarrow> int) \<Rightarrow> bool" where
  "consistentCompare cmp =
     ((\<forall>a b. cmp a b \<le> 0 \<or> cmp b a \<le> 0) \<and>
      (\<forall>a b c. cmp a b \<le> 0 \<longrightarrow> cmp b c \<le> 0 \<longrightarrow> cmp a c \<le> 0))"

text \<open>
  The body matches of a request, and the locations and the result that \<^verbatim>\<open>_searchRequest\<close>
  builds for it when it is not cancelled, in closed form; \<open>searchRequest_closed\<close> below
  proves that the loops of \<open>searchRequest\<close> compute them.
\<close>

definition bodyMatchesOf :: "'re env \<Rightarrow> searchConfig \<Rightarrow> networkRequest \<Rightarrow> searchMatch list" where
  "bodyMatchesOf env cfg rq =
     (if isTextType rq then searchInContent env rq (query cfg) (\<not> ignoreCase cfg) (isRegex cfg) else [])"

definition locationsOf :: "'re env \<Rightarrow> searchConfig \<Rightarrow> networkRequest \<Rightarrow> uiRequestLocation list" where
  "locationsOf env cfg rq =
     (if stringMatchesQuery env cfg (url rq) = Inr True then [urlMatch rq] else []) @
     map (\<lambda>h. requestHeaderMatch rq (Some h))
       (filter (\<lambda>h. headerMatchesQuery env cfg h = Inr True) (requestHeaders rq)) @
     map (\<lambda>h. responseHeaderMatch rq (Some h))
       (filter (\<lambda>h. headerMatchesQuery env cfg h = Inr True) (responseHeaders rq)) @
     map (\<lambda>m. bodyMatch rq (Some m)) (bodyMatchesOf env cfg rq)"

definition resultOf :: "'re env \<Rightarrow> searchConfig \<Rightarrow> networkRequest \<Rightarrow> networkSearchResult" where
  "resultOf env cfg rq = \<lparr>res_request = rq, res_locations = locationsOf env cfg rq\<rparr>"

text \<open>
  The promises of the array that are settled, and the invariant of a task's promise in a
  run without cancellation: pending only for a request of a text type, fulfilled only with
  the result of its request.
\<close>

definition settledCount :: "'a promise list \<Rightarrow> nat" where
  "settledCount promises = length (filter (\<lambda>p. p \<noteq> Pending) promises)"

definition taskState ::
  "'re env \<Rightarrow> searchConfig \<Rightarrow> networkSearchResult option promise \<Rightarrow> networkRequest \<Rightarrow> bool" where
  "taskState env cfg p rq =
     (if p = Pending then isTextType rq else p = Fulfilled (Some (resultOf env cfg rq)))"

text \<open>A step from \<open>w\<close> to \<open>w'\<close> that calls neither callback nor \<^verbatim>\<open>setTotalWork\<close>.\<close>

definition quiet :: "world \<Rightarrow> world \<Rightarrow> bool" where
  "quiet w w' =
     (resultCalls (trace w') = resultCalls (trace w) \<and>
      finishedCalls (trace w') = finishedCalls (trace w) \<and>
      setTotalWorkCalls (trace w') = setTotalWorkCalls (trace w))"

subsection \<open>Closed examples\<close>

text \<open>
  An environment on the engine for literal patterns, with the requests of the log, the
  body matches of each request and the answers of \<^verbatim>\<open>isCanceled\<close> given; a configuration
  that is case sensitive, not a regular expression search, and lets every URL through; and
  some requests.
\<close>

definition literalEnv ::
  "networkRequest list \<Rightarrow> (networkRequest \<Rightarrow> searchMatch list) \<Rightarrow> (nat \<Rightarrow> bool) \<Rightarrow> (string \<times> bool) env" where
  "literalEnv rqs body canceled =
     \<lparr>RegExp_new = literal_new, str_match = literal_match, localeCompare = codeUnitCompare,
      searchInContent = (\<lambda>rq q caseSensitive rx. body rq), requests = rqs,
      isCanceled = canceled, i18n_url = ''URL''\<rparr>"

definition plainConfig :: "string \<Rightarrow> string list \<Rightarrow> searchConfig" where
  "plainConfig q tokens =
     \<lparr>query = q, queries = tokens, ignoreCase = False, isRegex = False,
      filePathMatchesFileQuery = (\<lambda>path. True)\<rparr>"

definition scriptRequest :: networkRequest where
  "scriptRequest =
     \<lparr>url = ''http://a/x.js'', displayName = ''x.js'', isTextType = True,
      requestHeaders = [\<lparr>name = ''Accept'', hvalue = ''x''\<rparr>, \<lparr>name = ''Host'', hvalue = ''a''\<rparr>],
      responseHeaders = [\<lparr>name = ''Server'', hvalue = ''b''\<rparr>]\<rparr>"

definition scriptBody :: "networkRequest \<Rightarrow> searchMatch list" where
  "scriptBody rq = (if isTextType rq then [\<lparr>lineNumber = 2, lineContent = ''let x = 1''\<rparr>] else [])"

definition fileRequest :: "string \<Rightarrow> bool \<Rightarrow> networkRequest" where
  "fileRequest file text =
     \<lparr>url = ''http://a/'' @ file, displayName = file, isTextType = text,
      requestHeaders = [], responseHeaders = []\<rparr>"

definition noBody :: "networkRequest \<Rightarrow> searchMatch list" where
  "noBody rq = []"

section \<open>Properties\<close>

lemmas run_defs =
  performSearch_def candidates_def resume_def searchRequest_def progress_isCanceled_def
  headerMatchesQuery_def stringMatchesQuery_def regExpsOf_def literal_new_def literal_match_def
  emit_def init_world_def settle_def arraySort_def matchesCount_def label_def codeUnitCompare_def
  literalEnv_def plainConfig_def scriptRequest_def scriptBody_def fileRequest_def noBody_def
  urlMatch_def requestHeaderMatch_def responseHeaderMatch_def bodyMatch_def

subsection \<open>The multi-token matcher\<close>

lemma matchLoop_posAfter: "matchLoop ex s pos res = (posAfter ex s pos res \<noteq> None)"
  by (induction res arbitrary: pos) (auto split: option.splits)

lemma posAfter_append:
  "posAfter ex s pos (pre @ post) =
     (case posAfter ex s pos pre of None \<Rightarrow> None | Some p \<Rightarrow> posAfter ex s p post)"
  by (induction pre arbitrary: pos) (auto split: option.splits)

lemma posAfter_token:
  assumes "k < length res" and "posAfter ex s pos (take k res) = Some p"
  shows "posAfter ex s pos res =
           (case ex (res ! k) (drop p s) of
              None \<Rightarrow> None
            | Some (i, m) \<Rightarrow> if i = 0 then None else posAfter ex s (p + i + length m) (drop (Suc k) res))"
proof -
  have "res = take k res @ res ! k # drop (Suc k) res"
    using assms(1) by (simp add: id_take_nth_drop)
  then have "posAfter ex s pos res = posAfter ex s pos (take k res @ res ! k # drop (Suc k) res)"
    by simp
  also have "\<dots> = posAfter ex s p (res ! k # drop (Suc k) res)"
    using assms(2) by (simp add: posAfter_append)
  finally show ?thesis by simp
qed

lemma stringMatchesQuery_compiled:
  assumes "regExpsOf env cfg = Inr regExps"
  shows "stringMatchesQuery env cfg s = Inr (matchLoop (str_match env) s 0 regExps)"
  using assms by (simp add: stringMatchesQuery_def)

lemma stringMatchesQuery_InrD:
  assumes "stringMatchesQuery env cfg s = Inr b"
  shows "\<exists>regExps. regExpsOf env cfg = Inr regExps"
  using assms by (simp add: stringMatchesQuery_def split: sum.splits)

text \<open>
  Claim C1 (zero-offset restriction). Whenever the loop of \<^verbatim>\<open>stringMatchesQuery\<close> reaches
  a token (the tokens before it have matched and left the position \<open>p\<close>) and the match of
  that token in the remaining substring \<open>drop p s\<close> is at offset 0, the string is reported
  as not matching. The witness is the token \<^verbatim>\<open>x\<close> against \<^verbatim>\<open>xyz\<close>.
\<close>

theorem zero_offset_token_rejected:
  assumes "regExpsOf env cfg = Inr regExps"
    and "k < length regExps"
    and "posAfter (str_match env) s 0 (take k regExps) = Some p"
    and "str_match env (regExps ! k) (drop p s) = Some (0, m)"
  shows "stringMatchesQuery env cfg s = Inr False"
  using assms(1) posAfter_token [OF assms(2,3)] assms(4)
  by (simp add: stringMatchesQuery_def matchLoop_posAfter)

theorem zero_offset_token_rejected_witness:
  "stringMatchesQuery (literalEnv [] scriptBody (\<lambda>k. False)) (plainConfig ''x'' [''x'']) ''xyz'' = Inr False
   \<and> literal_match (''x'', False) ''xyz'' = Some (0, ''x'')"
  using zero_offset_token_rejected [of "literalEnv [] scriptBody (\<lambda>k. False)" "plainConfig ''x'' [''x'']"
      "[(''x'', False)]" 0 "''xyz''" 0 "''x''"]
  by (simp add: literalEnv_def plainConfig_def literal_new_def literal_match_def regExpsOf_def)

lemma matchLoop_positions:
  "matchLoop ex s pos res =
     (\<exists>ps. length ps = Suc (length res) \<and> ps ! 0 = pos \<and>
        (\<forall>k < length res. \<exists>i m. ex (res ! k) (drop (ps ! k) s) = Some (i, m) \<and> 0 < i \<and>
           ps ! Suc k = ps ! k + i + length m))"
proof (induction res arbitrary: pos)
  case Nil
  show ?case by (auto intro: exI [of _ "[pos]"])
next
  case (Cons re res)
  show ?case
  proof
    assume l: "matchLoop ex s pos (re # res)"
    then obtain i m where m: "ex re (drop pos s) = Some (i, m)" "0 < i"
      and rest: "matchLoop ex s (pos + i + length m) res"
      by (auto split: option.splits if_splits)
    from rest obtain ps where ps: "length ps = Suc (length res)" "ps ! 0 = pos + i + length m"
      "\<forall>k < length res. \<exists>i m. ex (res ! k) (drop (ps ! k) s) = Some (i, m) \<and> 0 < i \<and>
           ps ! Suc k = ps ! k + i + length m"
      unfolding Cons.IH by blast
    have "\<forall>k < length (re # res). \<exists>i m. ex ((re # res) ! k) (drop ((pos # ps) ! k) s) = Some (i, m) \<and> 0 < i \<and>
           (pos # ps) ! Suc k = (pos # ps) ! k + i + length m"
    proof (intro allI impI)
      fix k assume "k < length (re # res)"
      then show "\<exists>i m. ex ((re # res) ! k) (drop ((pos # ps) ! k) s) = Some (i, m) \<and> 0 < i \<and>
           (pos # ps) ! Suc k = (pos # ps) ! k + i + length m"
        using m ps by (cases k) auto
    qed
    then show "\<exists>ps. length ps = Suc (length (re # res)) \<and> ps ! 0 = pos \<and>
        (\<forall>k < length (re # res). \<exists>i m. ex ((re # res) ! k) (drop (ps ! k) s) = Some (i, m) \<and> 0 < i \<and>
           ps ! Suc k = ps ! k + i + length m)"
      using ps(1) by (intro exI [of _ "pos # ps"]) simp
  next
    assume "\<exists>ps. length ps = Suc (length (re # res)) \<and> ps ! 0 = pos \<and>
        (\<forall>k < length (re # res). \<exists>i m. ex ((re # res) ! k) (drop (ps ! k) s) = Some (i, m) \<and> 0 < i \<and>
           ps ! Suc k = ps ! k + i + length m)"
    then obtain ps where len: "length ps = Suc (length (re # res))" and p0: "ps ! 0 = pos"
      and ch: "\<forall>k < length (re # res). \<exists>i m. ex ((re # res) ! k) (drop (ps ! k) s) = Some (i, m) \<and> 0 < i \<and>
           ps ! Suc k = ps ! k + i + length m"
      by blast
    from len obtain q qs where ps: "ps = q # qs" by (cases ps) auto
    from ch [rule_format, of 0] p0 obtain i m where
      m: "ex re (drop pos s) = Some (i, m)" "0 < i" "qs ! 0 = pos + i + length m"
      unfolding ps by auto
    have "\<forall>k < length res. \<exists>i m. ex (res ! k) (drop (qs ! k) s) = Some (i, m) \<and> 0 < i \<and>
           qs ! Suc k = qs ! k + i + length m"
    proof (intro allI impI)
      fix k assume "k < length res"
      then show "\<exists>i m. ex (res ! k) (drop (qs ! k) s) = Some (i, m) \<and> 0 < i \<and>
           qs ! Suc k = qs ! k + i + length m"
        using ch [rule_format, of "Suc k"] unfolding ps by simp
    qed
    then have "matchLoop ex s (pos + i + length m) res"
      unfolding Cons.IH using len m(3) unfolding ps by (intro exI [of _ qs]) simp
    then show "matchLoop ex s pos (re # res)"
      using m by simp
  qed
qed

text \<open>
  Claim C6 (order-sensitive sequential matching). When the tokens compile, the matcher
  answers true exactly when there are positions \<open>ps\<close>, the first of them 0, such that
  each token in order has its match in the substring from the current position \<open>ps ! k\<close>
  on, at a positive offset \<open>i\<close>, and the next position is behind that match. A token
  without an occurrence in the remaining substring makes the matcher answer false,
  whatever tokens follow; after a token that matches at a positive offset the answer is
  that of the loop on the tokens that follow, from the position behind the match. In the
  witness the token sequence \<^verbatim>\<open>b\<close>, \<^verbatim>\<open>a\<close> does not match \<^verbatim>\<open>ab\<close> (\<^verbatim>\<open>b\<close> is found at offset 1
  and leaves position 2, where no \<^verbatim>\<open>a\<close> follows), and of the two orders of \<^verbatim>\<open>a\<close> and
  \<^verbatim>\<open>b\<close> only \<^verbatim>\<open>a\<close>, \<^verbatim>\<open>b\<close> matches \<^verbatim>\<open>xaxb\<close>.
\<close>

theorem token_sequence_matching:
  assumes "regExpsOf env cfg = Inr regExps"
  shows "(stringMatchesQuery env cfg s = Inr True \<or> stringMatchesQuery env cfg s = Inr False) \<and>
         (stringMatchesQuery env cfg s = Inr True \<longleftrightarrow>
            (\<exists>ps. length ps = Suc (length regExps) \<and> ps ! 0 = 0 \<and>
               (\<forall>k < length regExps.
                  \<exists>i m. str_match env (regExps ! k) (drop (ps ! k) s) = Some (i, m) \<and> 0 < i \<and>
                        ps ! Suc k = ps ! k + i + length m))) \<and>
         (k < length regExps \<longrightarrow> posAfter (str_match env) s 0 (take k regExps) = Some p \<longrightarrow>
            (str_match env (regExps ! k) (drop p s) = None \<longrightarrow> stringMatchesQuery env cfg s = Inr False) \<and>
            (str_match env (regExps ! k) (drop p s) = Some (i, m) \<longrightarrow> 0 < i \<longrightarrow>
               posAfter (str_match env) s 0 (take (Suc k) regExps) = Some (p + i + length m) \<and>
               stringMatchesQuery env cfg s =
                 Inr (matchLoop (str_match env) s (p + i + length m) (drop (Suc k) regExps))))"
proof (intro conjI impI)
  have r: "stringMatchesQuery env cfg s = Inr (matchLoop (str_match env) s 0 regExps)"
    using assms by (rule stringMatchesQuery_compiled)
  show "stringMatchesQuery env cfg s = Inr True \<or> stringMatchesQuery env cfg s = Inr False"
    unfolding r by simp
  show "stringMatchesQuery env cfg s = Inr True \<longleftrightarrow>
            (\<exists>ps. length ps = Suc (length regExps) \<and> ps ! 0 = 0 \<and>
               (\<forall>k < length regExps.
                  \<exists>i m. str_match env (regExps ! k) (drop (ps ! k) s) = Some (i, m) \<and> 0 < i \<and>
                        ps ! Suc k = ps ! k + i + length m))"
    unfolding r using matchLoop_positions [of "str_match env" s 0 regExps] by simp
next
  assume k: "k < length regExps" and p: "posAfter (str_match env) s 0 (take k regExps) = Some p"
  have r: "stringMatchesQuery env cfg s = Inr (matchLoop (str_match env) s 0 regExps)"
    using assms by (rule stringMatchesQuery_compiled)
  {
    assume "str_match env (regExps ! k) (drop p s) = None"
    then show "stringMatchesQuery env cfg s = Inr False"
      using posAfter_token [OF k p] by (simp add: r matchLoop_posAfter)
  }
  {
    assume m: "str_match env (regExps ! k) (drop p s) = Some (i, m)" and i: "0 < i"
    have "take (Suc k) regExps = take k regExps @ [regExps ! k]"
      using k by (rule take_Suc_conv_app_nth)
    then show "posAfter (str_match env) s 0 (take (Suc k) regExps) = Some (p + i + length m)"
      using p m i by (simp add: posAfter_append)
    show "stringMatchesQuery env cfg s =
            Inr (matchLoop (str_match env) s (p + i + length m) (drop (Suc k) regExps))"
      using posAfter_token [OF k p] m i by (simp add: r matchLoop_posAfter)
  }
qed

theorem token_sequence_matching_witness:
  "posAfter literal_match ''ab'' 0 [] = Some 0
   \<and> literal_match (''b'', False) ''ab'' = Some (1, ''b'')
   \<and> posAfter literal_match ''ab'' 0 [(''b'', False)] = Some 2
   \<and> literal_match (''a'', False) (drop 2 ''ab'') = None
   \<and> stringMatchesQuery (literalEnv [] scriptBody (\<lambda>k. False)) (plainConfig ''b a'' [''b'', ''a'']) ''ab'' =
       Inr False
   \<and> stringMatchesQuery (literalEnv [] scriptBody (\<lambda>k. False)) (plainConfig ''a b'' [''a'', ''b'']) ''xaxb'' =
       Inr True
   \<and> stringMatchesQuery (literalEnv [] scriptBody (\<lambda>k. False)) (plainConfig ''b a'' [''b'', ''a'']) ''xaxb'' =
       Inr False"
proof -
  let ?env = "literalEnv [] scriptBody (\<lambda>k. False)"
  let ?cfg = "plainConfig ''b a'' [''b'', ''a'']"
  let ?res = "[(''b'', False), (''a'', False)]"
  let ?cfg' = "plainConfig ''a b'' [''a'', ''b'']"
  let ?res' = "[(''a'', False), (''b'', False)]"
  have c: "regExpsOf ?env ?cfg = Inr ?res"
    by (simp add: regExpsOf_def literalEnv_def plainConfig_def literal_new_def)
  have c': "regExpsOf ?env ?cfg' = Inr ?res'"
    by (simp add: regExpsOf_def literalEnv_def plainConfig_def literal_new_def)
  have m: "str_match ?env = literal_match"
    by (simp add: literalEnv_def)
  have p0: "posAfter (str_match ?env) ''ab'' 0 (take 0 ?res) = Some 0"
    by simp
  have b: "literal_match (''b'', False) ''ab'' = Some (1, ''b'')"
    by (simp add: literal_match_def)
  have p1: "posAfter (str_match ?env) ''ab'' 0 (take 1 ?res) = Some 2"
    using token_sequence_matching [OF c, of "''ab''" 0 0 1 "''b''"] p0 b by (simp add: m)
  have a: "literal_match (''a'', False) (drop 2 ''ab'') = None"
    by (simp add: literal_match_def)
  have f: "stringMatchesQuery ?env ?cfg ''ab'' = Inr False"
    using token_sequence_matching [OF c, of "''ab''" 1 2] p1 a by (simp add: m)
  have "\<forall>k < length ?res'.
          \<exists>i m. str_match ?env (?res' ! k) (drop ([0, 2, 4] ! k) ''xaxb'') = Some (i, m) \<and> 0 < i \<and>
                [0, 2, 4] ! Suc k = [0, 2, 4] ! k + i + length m"
    by (simp add: m literal_match_def less_Suc_eq numeral_2_eq_2)
  then have "\<exists>ps. length ps = Suc (length ?res') \<and> ps ! 0 = 0 \<and>
          (\<forall>k < length ?res'.
             \<exists>i m. str_match ?env (?res' ! k) (drop (ps ! k) ''xaxb'') = Some (i, m) \<and> 0 < i \<and>
                   ps ! Suc k = ps ! k + i + length m)"
    by (intro exI [of _ "[0, 2, 4]"]) simp
  then have t: "stringMatchesQuery ?env ?cfg' ''xaxb'' = Inr True"
    using token_sequence_matching [OF c', of "''xaxb''"] by blast
  have q0: "posAfter (str_match ?env) ''xaxb'' 0 (take 0 ?res) = Some 0"
    by simp
  have q1: "posAfter (str_match ?env) ''xaxb'' 0 (take 1 ?res) = Some 4"
    using token_sequence_matching [OF c, of "''xaxb''" 0 0 3 "''b''"] q0
    by (simp add: m literal_match_def)
  have f': "stringMatchesQuery ?env ?cfg ''xaxb'' = Inr False"
    using token_sequence_matching [OF c, of "''xaxb''" 1 4] q1 by (simp add: m literal_match_def)
  from p0 p1 a b f t f' show ?thesis by (simp add: m)
qed

text \<open>
  Claim C7 (an empty token list matches everything). With no token the matcher returns
  true on every string.
\<close>

theorem empty_queries_match_everything:
  "queries cfg = [] \<Longrightarrow> stringMatchesQuery env cfg s = Inr True"
  by (simp add: stringMatchesQuery_def regExpsOf_def)

theorem empty_queries_match_everything_witness:
  "queries (plainConfig '''' []) = []
   \<and> stringMatchesQuery (literalEnv [] scriptBody (\<lambda>k. False)) (plainConfig '''' []) ''http://a/x.js'' = Inr True"
  using empty_queries_match_everything [of "plainConfig '''' []" "literalEnv [] scriptBody (\<lambda>k. False)" "''http://a/x.js''"]
  by (simp add: plainConfig_def)

subsection \<open>The flag \<^verbatim>\<open>isRegex\<close>\<close>

lemma stringMatchesQuery_isRegex:
  "stringMatchesQuery (env\<lparr>searchInContent := f\<rparr>) (cfg\<lparr>isRegex := b\<rparr>) s = stringMatchesQuery env cfg s"
  by (simp add: stringMatchesQuery_def regExpsOf_def cong: sum.case_cong)

lemma pushHeaders_isRegex:
  "pushHeaders (env\<lparr>searchInContent := f\<rparr>) (cfg\<lparr>isRegex := b\<rparr>) mk hs locations = pushHeaders env cfg mk hs locations"
  by (induction hs arbitrary: locations) (simp_all add: headerMatchesQuery_def stringMatchesQuery_isRegex cong: sum.case_cong)

text \<open>
  Claim C10 (\<^verbatim>\<open>isRegex\<close> never affects URL or header matching). Setting
  \<^verbatim>\<open>isRegex()\<close> to any value \<open>b\<close> changes neither \<^verbatim>\<open>stringMatchesQuery\<close> nor
  \<^verbatim>\<open>headerMatchesQuery\<close>, which compile every token with \<^verbatim>\<open>new RegExp\<close> under flags that
  depend on \<^verbatim>\<open>ignoreCase()\<close> only; and all it changes of \<^verbatim>\<open>_searchRequest\<close> is the value
  that the body search of the request is called with.
\<close>

theorem isRegex_only_reaches_body_search:
  "stringMatchesQuery env (cfg\<lparr>isRegex := b\<rparr>) s = stringMatchesQuery env cfg s
   \<and> headerMatchesQuery env (cfg\<lparr>isRegex := b\<rparr>) header = headerMatchesQuery env cfg header
   \<and> searchRequest env (cfg\<lparr>isRegex := b\<rparr>) rq w =
       searchRequest (env\<lparr>searchInContent := \<lambda>r q caseSensitive rx. searchInContent env r q caseSensitive b\<rparr>) cfg rq w"
proof -
  let ?env' = "env\<lparr>searchInContent := \<lambda>r q caseSensitive rx. searchInContent env r q caseSensitive b\<rparr>"
  have s: "\<And>s. stringMatchesQuery env (cfg\<lparr>isRegex := b\<rparr>) s = stringMatchesQuery env cfg s"
    by (simp add: stringMatchesQuery_def regExpsOf_def)
  have s': "\<And>s. stringMatchesQuery ?env' cfg s = stringMatchesQuery env cfg s"
    by (simp add: stringMatchesQuery_def regExpsOf_def cong: sum.case_cong)
  have h: "\<And>mk hs locations. pushHeaders env (cfg\<lparr>isRegex := b\<rparr>) mk hs locations = pushHeaders env cfg mk hs locations"
    using pushHeaders_isRegex [where env = env and f = "searchInContent env" and b = b and cfg = cfg] by simp
  have h': "\<And>mk hs locations. pushHeaders ?env' cfg mk hs locations = pushHeaders env cfg mk hs locations"
    using pushHeaders_isRegex [where env = env and b = "isRegex cfg" and cfg = cfg] by simp
  show ?thesis
    by (simp add: s s' h h' headerMatchesQuery_def searchRequest_def progress_isCanceled_def
        cong: sum.case_cong)
qed

subsection \<open>\<^verbatim>\<open>_searchRequest\<close> in closed form\<close>

lemma pushHeaders_closed:
  assumes "regExpsOf env cfg = Inr regExps"
  shows "pushHeaders env cfg mk hs locations =
           Inr (locations @ map (\<lambda>h. mk (Some h)) (filter (\<lambda>h. headerMatchesQuery env cfg h = Inr True) hs))"
proof (induction hs arbitrary: locations)
  case Nil
  show ?case by simp
next
  case (Cons h hs)
  have "headerMatchesQuery env cfg h = Inr (matchLoop (str_match env) (name h @ '': '' @ hvalue h) 0 regExps)"
    unfolding headerMatchesQuery_def by (rule stringMatchesQuery_compiled [OF assms])
  then show ?case by (simp add: Cons.IH)
qed

lemma pushBodyMatches_closed:
  "pushBodyMatches rq ms locations = locations @ map (\<lambda>m. bodyMatch rq (Some m)) ms"
  by (induction ms arbitrary: locations) simp_all

lemma searchRequest_closed:
  assumes "regExpsOf env cfg = Inr regExps"
    and "\<not> isCanceled env (calls w)"
  shows "searchRequest env cfg rq w =
           (Inr (Some \<lparr>res_request = rq, res_locations = locationsOf env cfg rq\<rparr>),
            emit Worked (w\<lparr>calls := Suc (calls w)\<rparr>))"
  using assms(2)
  by (simp add: searchRequest_def progress_isCanceled_def pushHeaders_closed [OF assms(1)]
      stringMatchesQuery_compiled [OF assms(1)] pushBodyMatches_closed locationsOf_def bodyMatchesOf_def)

lemma searchRequest_result:
  assumes "fst (searchRequest env cfg rq w) = Inr (Some r)"
  shows "r = \<lparr>res_request = rq, res_locations = locationsOf env cfg rq\<rparr>"
proof -
  have nc: "\<not> isCanceled env (calls w)"
    using assms by (auto simp: searchRequest_def progress_isCanceled_def)
  obtain um where "stringMatchesQuery env cfg (url rq) = Inr um"
    using assms nc
    by (cases "stringMatchesQuery env cfg (url rq)")
      (simp_all add: searchRequest_def progress_isCanceled_def)
  then obtain regExps where "regExpsOf env cfg = Inr regExps"
    using stringMatchesQuery_InrD by blast
  from searchRequest_closed [OF this nc, of rq] assms show ?thesis by simp
qed

text \<open>
  Claim C5 (order of the match locations of a candidate). Every result that
  \<^verbatim>\<open>_searchRequest\<close> produces is the result of its request and lists: the URL match if the
  URL matches, then the matching request headers in their order, then the matching
  response headers in their order, then the body matches in the order the body search
  gave them. A result is produced whenever the check of \<^verbatim>\<open>isCanceled\<close> answers false and
  the tokens compile. The witness is a request whose URL, one request header and one body
  line match.
\<close>

theorem match_locations_in_discovery_order:
  "(fst (searchRequest env cfg rq w) = Inr (Some r) \<longrightarrow>
      res_request r = rq \<and>
      res_locations r =
        (if stringMatchesQuery env cfg (url rq) = Inr True then [urlMatch rq] else []) @
        map (\<lambda>h. requestHeaderMatch rq (Some h))
          (filter (\<lambda>h. headerMatchesQuery env cfg h = Inr True) (requestHeaders rq)) @
        map (\<lambda>h. responseHeaderMatch rq (Some h))
          (filter (\<lambda>h. headerMatchesQuery env cfg h = Inr True) (responseHeaders rq)) @
        map (\<lambda>m. bodyMatch rq (Some m))
          (if isTextType rq
           then searchInContent env rq (query cfg) (\<not> ignoreCase cfg) (isRegex cfg)
           else [])) \<and>
   (regExpsOf env cfg = Inr regExps \<longrightarrow> \<not> isCanceled env (calls w) \<longrightarrow>
      (\<exists>r'. fst (searchRequest env cfg rq w) = Inr (Some r')))"
proof (intro conjI impI)
  assume "fst (searchRequest env cfg rq w) = Inr (Some r)"
  then have r: "r = \<lparr>res_request = rq, res_locations = locationsOf env cfg rq\<rparr>"
    by (rule searchRequest_result)
  show "res_request r = rq"
    by (simp add: r)
  show "res_locations r =
        (if stringMatchesQuery env cfg (url rq) = Inr True then [urlMatch rq] else []) @
        map (\<lambda>h. requestHeaderMatch rq (Some h))
          (filter (\<lambda>h. headerMatchesQuery env cfg h = Inr True) (requestHeaders rq)) @
        map (\<lambda>h. responseHeaderMatch rq (Some h))
          (filter (\<lambda>h. headerMatchesQuery env cfg h = Inr True) (responseHeaders rq)) @
        map (\<lambda>m. bodyMatch rq (Some m))
          (if isTextType rq
           then searchInContent env rq (query cfg) (\<not> ignoreCase cfg) (isRegex cfg)
           else [])"
    by (simp add: r locationsOf_def bodyMatchesOf_def)
next
  assume "regExpsOf env cfg = Inr regExps" and "\<not> isCanceled env (calls w)"
  then show "\<exists>r'. fst (searchRequest env cfg rq w) = Inr (Some r')"
    by (simp add: searchRequest_closed)
qed

theorem match_locations_in_discovery_order_witness:
  "fst (searchRequest (literalEnv [scriptRequest] scriptBody (\<lambda>k. False)) (plainConfig ''x'' [''x''])
          scriptRequest init_world) =
     Inr (Some \<lparr>res_request = scriptRequest,
                res_locations =
                  [urlMatch scriptRequest,
                   requestHeaderMatch scriptRequest (Some \<lparr>name = ''Accept'', hvalue = ''x''\<rparr>),
                   bodyMatch scriptRequest (Some \<lparr>lineNumber = 2, lineContent = ''let x = 1''\<rparr>)]\<rparr>)"
proof -
  let ?env = "literalEnv [scriptRequest] scriptBody (\<lambda>k. False)"
  let ?cfg = "plainConfig ''x'' [''x'']"
  have c: "regExpsOf ?env ?cfg = Inr [(''x'', False)]"
    by (simp add: regExpsOf_def literalEnv_def plainConfig_def literal_new_def)
  have n: "\<not> isCanceled ?env (calls init_world)"
    by (simp add: literalEnv_def)
  from match_locations_in_discovery_order [of ?env ?cfg scriptRequest init_world _ "[(''x'', False)]"] c n
  obtain r where r: "fst (searchRequest ?env ?cfg scriptRequest init_world) = Inr (Some r)"
    by blast
  have u: "stringMatchesQuery ?env ?cfg (url scriptRequest) = Inr True"
    by (simp add: run_defs)
  have rh: "filter (\<lambda>h. headerMatchesQuery ?env ?cfg h = Inr True) (requestHeaders scriptRequest) =
              [\<lparr>name = ''Accept'', hvalue = ''x''\<rparr>]"
    by (simp add: run_defs)
  have sh: "filter (\<lambda>h. headerMatchesQuery ?env ?cfg h = Inr True) (responseHeaders scriptRequest) = []"
    by (simp add: run_defs)
  have b: "(if isTextType scriptRequest
            then searchInContent ?env scriptRequest (query ?cfg) (\<not> ignoreCase ?cfg) (isRegex ?cfg)
            else []) = [\<lparr>lineNumber = 2, lineContent = ''let x = 1''\<rparr>]"
    by (simp add: literalEnv_def scriptRequest_def scriptBody_def)
  from match_locations_in_discovery_order [of ?env ?cfg scriptRequest init_world r] r
  have "res_request r = scriptRequest"
    and "res_locations r =
           [urlMatch scriptRequest,
            requestHeaderMatch scriptRequest (Some \<lparr>name = ''Accept'', hvalue = ''x''\<rparr>),
            bodyMatch scriptRequest (Some \<lparr>lineNumber = 2, lineContent = ''let x = 1''\<rparr>)]"
    unfolding u rh sh b by simp_all
  then have "r = \<lparr>res_request = scriptRequest,
                res_locations =
                  [urlMatch scriptRequest,
                   requestHeaderMatch scriptRequest (Some \<lparr>name = ''Accept'', hvalue = ''x''\<rparr>),
                   bodyMatch scriptRequest (Some \<lparr>lineNumber = 2, lineContent = ''let x = 1''\<rparr>)]\<rparr>"
    by (cases r) simp
  with r show ?thesis by simp
qed

subsection \<open>The variants of a location\<close>

lemma exactlyOneVariant_constructors:
  "exactlyOneVariant (urlMatch rq)"
  "exactlyOneVariant (requestHeaderMatch rq (Some header))"
  "exactlyOneVariant (responseHeaderMatch rq (Some header))"
  "exactlyOneVariant (bodyMatch rq (Some sm))"
  by (simp_all add: exactlyOneVariant_def urlMatch_def requestHeaderMatch_def
      responseHeaderMatch_def bodyMatch_def)

lemma exactlyOneVariant_locationsOf: "list_all exactlyOneVariant (locationsOf env cfg rq)"
  by (auto simp: locationsOf_def list_all_iff exactlyOneVariant_constructors)

text \<open>
  Claim C9 (exactly one variant), as stated, fails: the constructors take a header or a
  search match that may be \<^verbatim>\<open>null\<close>, and \<^verbatim>\<open>requestHeaderMatch(request, null)\<close> has no
  discriminating field set.
\<close>

theorem location_variants_counterexample:
  "\<not> exactlyOneVariant (requestHeaderMatch scriptRequest None)"
  by (simp add: exactlyOneVariant_def requestHeaderMatch_def)

text \<open>
  Claim C9, amended. A location made by \<^verbatim>\<open>urlMatch\<close>, or by \<^verbatim>\<open>requestHeaderMatch\<close>,
  \<^verbatim>\<open>responseHeaderMatch\<close> or \<^verbatim>\<open>bodyMatch\<close> from an argument that is not \<^verbatim>\<open>null\<close>, has
  exactly one discriminating field set; so has every location of a result of
  \<^verbatim>\<open>_searchRequest\<close>; and \<^verbatim>\<open>matchLineContent\<close> and \<^verbatim>\<open>matchLabel\<close> resolve such a location,
  wherever it stands in the list, to the content and the label of its kind.
\<close>

theorem location_variants:
  "exactlyOneVariant (urlMatch rq)
   \<and> exactlyOneVariant (requestHeaderMatch rq (Some header))
   \<and> exactlyOneVariant (responseHeaderMatch rq (Some header))
   \<and> exactlyOneVariant (bodyMatch rq (Some sm))
   \<and> (fst (searchRequest env cfg rq w) = Inr (Some r) \<longrightarrow> list_all exactlyOneVariant (res_locations r))
   \<and> matchLineContent \<lparr>res_request = rq', res_locations = pre @ urlMatch rq # post\<rparr> (length pre) =
       Inr (url rq')
   \<and> matchLineContent \<lparr>res_request = rq', res_locations = pre @ requestHeaderMatch rq (Some header) # post\<rparr>
         (length pre) = Inr (hvalue header)
   \<and> matchLineContent \<lparr>res_request = rq', res_locations = pre @ responseHeaderMatch rq (Some header) # post\<rparr>
         (length pre) = Inr (hvalue header)
   \<and> matchLineContent \<lparr>res_request = rq', res_locations = pre @ bodyMatch rq (Some sm) # post\<rparr>
         (length pre) = Inr (lineContent sm)
   \<and> matchLabel env \<lparr>res_request = rq', res_locations = pre @ urlMatch rq # post\<rparr> (length pre) =
       Inr (LabelString (i18n_url env))
   \<and> matchLabel env \<lparr>res_request = rq', res_locations = pre @ requestHeaderMatch rq (Some header) # post\<rparr>
         (length pre) = Inr (LabelString (name header @ '':''))
   \<and> matchLabel env \<lparr>res_request = rq', res_locations = pre @ responseHeaderMatch rq (Some header) # post\<rparr>
         (length pre) = Inr (LabelString (name header @ '':''))
   \<and> matchLabel env \<lparr>res_request = rq', res_locations = pre @ bodyMatch rq (Some sm) # post\<rparr>
         (length pre) = Inr (LabelNumber (lineNumber sm + 1))"
proof -
  have ctor: "exactlyOneVariant (urlMatch rq)" "exactlyOneVariant (requestHeaderMatch rq (Some header))"
    "exactlyOneVariant (responseHeaderMatch rq (Some header))" "exactlyOneVariant (bodyMatch rq (Some sm))"
    by (rule exactlyOneVariant_constructors)+
  have run: "fst (searchRequest env cfg rq w) = Inr (Some r) \<longrightarrow> list_all exactlyOneVariant (res_locations r)"
    using searchRequest_result [of env cfg rq w r] exactlyOneVariant_locationsOf [of env cfg rq]
    by auto
  have content:
    "matchLineContent \<lparr>res_request = rq', res_locations = pre @ urlMatch rq # post\<rparr> (length pre) =
       Inr (url rq')"
    "matchLineContent \<lparr>res_request = rq', res_locations = pre @ requestHeaderMatch rq (Some header) # post\<rparr>
         (length pre) = Inr (hvalue header)"
    "matchLineContent \<lparr>res_request = rq', res_locations = pre @ responseHeaderMatch rq (Some header) # post\<rparr>
         (length pre) = Inr (hvalue header)"
    "matchLineContent \<lparr>res_request = rq', res_locations = pre @ bodyMatch rq (Some sm) # post\<rparr>
         (length pre) = Inr (lineContent sm)"
    by (simp_all add: matchLineContent_def headerOf_def urlMatch_def requestHeaderMatch_def
        responseHeaderMatch_def bodyMatch_def)
  have label:
    "matchLabel env \<lparr>res_request = rq', res_locations = pre @ urlMatch rq # post\<rparr> (length pre) =
       Inr (LabelString (i18n_url env))"
    "matchLabel env \<lparr>res_request = rq', res_locations = pre @ requestHeaderMatch rq (Some header) # post\<rparr>
         (length pre) = Inr (LabelString (name header @ '':''))"
    "matchLabel env \<lparr>res_request = rq', res_locations = pre @ responseHeaderMatch rq (Some header) # post\<rparr>
         (length pre) = Inr (LabelString (name header @ '':''))"
    "matchLabel env \<lparr>res_request = rq', res_locations = pre @ bodyMatch rq (Some sm) # post\<rparr>
         (length pre) = Inr (LabelNumber (lineNumber sm + 1))"
    by (simp_all add: matchLabel_def headerOf_def urlMatch_def requestHeaderMatch_def
        responseHeaderMatch_def bodyMatch_def)
  show ?thesis
    using ctor run content label by blast
qed

theorem location_variants_witness:
  "fst (searchRequest (literalEnv [scriptRequest] scriptBody (\<lambda>k. False)) (plainConfig ''x'' [''x''])
          scriptRequest init_world) =
     Inr (Some \<lparr>res_request = scriptRequest,
                res_locations =
                  [urlMatch scriptRequest,
                   requestHeaderMatch scriptRequest (Some \<lparr>name = ''Accept'', hvalue = ''x''\<rparr>),
                   bodyMatch scriptRequest (Some \<lparr>lineNumber = 2, lineContent = ''let x = 1''\<rparr>)]\<rparr>)
   \<and> list_all exactlyOneVariant
        [urlMatch scriptRequest,
         requestHeaderMatch scriptRequest (Some \<lparr>name = ''Accept'', hvalue = ''x''\<rparr>),
         bodyMatch scriptRequest (Some \<lparr>lineNumber = 2, lineContent = ''let x = 1''\<rparr>)]"
proof -
  let ?env = "literalEnv [scriptRequest] scriptBody (\<lambda>k. False)"
  let ?cfg = "plainConfig ''x'' [''x'']"
  let ?r = "\<lparr>res_request = scriptRequest,
             res_locations =
               [urlMatch scriptRequest,
                requestHeaderMatch scriptRequest (Some \<lparr>name = ''Accept'', hvalue = ''x''\<rparr>),
                bodyMatch scriptRequest (Some \<lparr>lineNumber = 2, lineContent = ''let x = 1''\<rparr>)]\<rparr>"
  have h: "fst (searchRequest ?env ?cfg scriptRequest init_world) = Inr (Some ?r)"
    by (simp add: run_defs)
  show ?thesis
    using h location_variants [of scriptRequest _ _ ?env ?cfg init_world ?r] by simp
qed

subsection \<open>What the tasks of a run do, whatever the answers of \<^verbatim>\<open>isCanceled\<close>\<close>

lemma resultCalls_append: "resultCalls (a @ b) = resultCalls a @ resultCalls b"
  by (induction a rule: resultCalls.induct) simp_all

lemma finishedCalls_append: "finishedCalls (a @ b) = finishedCalls a @ finishedCalls b"
  by (induction a rule: finishedCalls.induct) simp_all

lemma setTotalWorkCalls_append: "setTotalWorkCalls (a @ b) = setTotalWorkCalls a @ setTotalWorkCalls b"
  by (induction a rule: setTotalWorkCalls.induct) simp_all

lemma workedCalls_append: "workedCalls (a @ b) = workedCalls a + workedCalls b"
  by (simp add: workedCalls_def)

lemma resultCalls_map: "resultCalls (map SearchResultCallback rs) = rs"
  by (induction rs) simp_all

lemma finishedCalls_map: "finishedCalls (map SearchResultCallback rs) = []"
  by (induction rs) simp_all



lemma searchRequest_world:
  "snd (searchRequest env cfg rq w) = w\<lparr>calls := Suc (calls w)\<rparr> \<or>
   snd (searchRequest env cfg rq w) = emit Worked (w\<lparr>calls := Suc (calls w)\<rparr>)"
  by (simp add: searchRequest_def progress_isCanceled_def split: sum.splits)

lemma quiet_refl: "quiet w w"
  by (simp add: quiet_def)

lemma quiet_trans: "quiet w w' \<Longrightarrow> quiet w' w'' \<Longrightarrow> quiet w w''"
  by (simp add: quiet_def)

lemma searchRequest_quiet: "quiet w (snd (searchRequest env cfg rq w))"
  using searchRequest_world [of env cfg rq w]
  by (auto simp: quiet_def emit_def resultCalls_append finishedCalls_append setTotalWorkCalls_append)

lemma searchRequest_calls: "calls (snd (searchRequest env cfg rq w)) = Suc (calls w)"
  using searchRequest_world [of env cfg rq w] by (auto simp: emit_def)

lemma settle_not_Pending: "settle out \<noteq> Pending"
  by (simp add: settle_def split: sum.splits)

lemma settledCount_snoc:
  "settledCount (promises @ [p]) = settledCount promises + (if p = Pending then 0 else 1)"
  by (simp add: settledCount_def)

lemma settledCount_update:
  "i < length promises \<Longrightarrow> promises ! i = Pending \<Longrightarrow> p \<noteq> Pending \<Longrightarrow>
   settledCount (promises[i := p]) = Suc (settledCount promises)"
proof (induction promises arbitrary: i)
  case Nil
  then show ?case by simp
next
  case (Cons q qs)
  then show ?case by (cases i) (simp_all add: settledCount_def)
qed

lemma settledCount_less:
  "i < length promises \<Longrightarrow> promises ! i = Pending \<Longrightarrow> settledCount promises < length promises"
  unfolding settledCount_def
  using nth_mem [of i promises] by (intro length_filter_less [of "promises ! i"]) simp_all

lemma settledCount_le: "settledCount promises \<le> length promises"
  by (simp add: settledCount_def)


lemma promiseAll_map_Fulfilled: "promiseAll (map Fulfilled vs) = Fulfilled vs"
  by (induction vs) simp_all

lemma launch_unconditional:
  "case launch env cfg rqs promises w of
     (promises', w') \<Rightarrow>
       quiet w w' \<and> length promises' = length promises + length rqs \<and>
       calls w' + settledCount promises = calls w + settledCount promises'"
proof (induction rqs arbitrary: promises w)
  case Nil
  show ?case by (simp add: quiet_refl)
next
  case (Cons rq rqs)
  show ?case
  proof (cases "isTextType rq")
    case True
    with Cons.IH [where promises = "promises @ [Pending]" and w = w] show ?thesis
      by (simp add: settledCount_snoc split: prod.splits)
  next
    case False
    obtain out w1 where sr: "searchRequest env cfg rq w = (out, w1)"
      by (cases "searchRequest env cfg rq w")
    have q: "quiet w w1" and c: "calls w1 = Suc (calls w)"
      using searchRequest_quiet [of w env cfg rq] searchRequest_calls [of env cfg rq w] sr by simp_all
    from Cons.IH [where promises = "promises @ [settle out]" and w = w1] False sr q c show ?thesis
      by (auto simp: settledCount_snoc settle_not_Pending split: prod.splits intro: quiet_trans)
  qed
qed

lemma resume_unconditional:
  "case resume env cfg reqs i (promises, w) of
     (promises', w') \<Rightarrow>
       quiet w w' \<and> length promises' = length promises \<and>
       calls w' + settledCount promises = calls w + settledCount promises'"
proof (cases "i < length promises \<and> i < length reqs \<and> promises ! i = Pending")
  case False
  then show ?thesis by (auto simp: resume_def quiet_refl)
next
  case True
  obtain out w1 where sr: "searchRequest env cfg (reqs ! i) w = (out, w1)"
    by (cases "searchRequest env cfg (reqs ! i) w")
  have q: "quiet w w1" and c: "calls w1 = Suc (calls w)"
    using searchRequest_quiet [of w env cfg "reqs ! i"] searchRequest_calls [of env cfg "reqs ! i" w] sr
    by simp_all
  from True sr q c show ?thesis
    by (simp add: resume_def settledCount_update settle_not_Pending)
qed

lemma resumeAll_unconditional:
  "case resumeAll env cfg reqs sched (promises, w) of
     (promises', w') \<Rightarrow>
       quiet w w' \<and> length promises' = length promises \<and>
       calls w' + settledCount promises = calls w + settledCount promises'"
proof (induction sched arbitrary: promises w)
  case Nil
  show ?case by (simp add: quiet_refl)
next
  case (Cons i sched)
  obtain p1 w1 where r: "resume env cfg reqs i (promises, w) = (p1, w1)"
    by (cases "resume env cfg reqs i (promises, w)")
  from resume_unconditional [where env = env and cfg = cfg and reqs = reqs and i = i and promises = promises and w = w]
    r Cons.IH [where promises = p1 and w = w1] show ?case
    by (auto split: prod.splits intro: quiet_trans)
qed

lemma emitResults_world:
  "emitResults rs w =
     w\<lparr>trace := trace w @ map SearchResultCallback (filter (\<lambda>r. 0 < matchesCount r) rs)\<rparr>"
  by (induction rs arbitrary: w) (simp_all add: emit_def)

lemma performSearch_tasks:
  obtains promises w3 where
    "resumeAll env cfg (candidates env cfg) sched
       (launch env cfg (candidates env cfg) []
          (emit (SetTotalWork (length (candidates env cfg))) init_world)) = (promises, w3)"
    and "length promises = length (candidates env cfg)"
    and "calls w3 = settledCount promises"
    and "resultCalls (trace w3) = []"
    and "finishedCalls (trace w3) = []"
    and "setTotalWorkCalls (trace w3) = [length (candidates env cfg)]"
proof -
  let ?reqs = "candidates env cfg"
  let ?w1 = "emit (SetTotalWork (length ?reqs)) init_world"
  obtain p2 w2 where l: "launch env cfg ?reqs [] ?w1 = (p2, w2)"
    by (cases "launch env cfg ?reqs [] ?w1")
  obtain p3 w3 where r: "resumeAll env cfg ?reqs sched (p2, w2) = (p3, w3)"
    by (cases "resumeAll env cfg ?reqs sched (p2, w2)")
  have l': "quiet ?w1 w2" "length p2 = length ?reqs" "calls w2 = settledCount p2"
    using launch_unconditional [where env = env and cfg = cfg and rqs = ?reqs and promises = "[]" and w = ?w1] l
    by (simp_all add: settledCount_def emit_def init_world_def)
  have r': "quiet w2 w3" "length p3 = length p2" "calls w3 + settledCount p2 = calls w2 + settledCount p3"
    using resumeAll_unconditional [where env = env and cfg = cfg and reqs = ?reqs and sched = sched
        and promises = p2 and w = w2] r
    by simp_all
  have q: "quiet ?w1 w3"
    using l'(1) r'(1) by (rule quiet_trans)
  show thesis
  proof (rule that [of p3 w3])
    show "resumeAll env cfg ?reqs sched (launch env cfg ?reqs [] ?w1) = (p3, w3)"
      using l r by simp
    show "length p3 = length ?reqs" using l'(2) r'(2) by simp
    show "calls w3 = settledCount p3" using l'(3) r'(3) by simp
    show "resultCalls (trace w3) = []" using q by (simp add: quiet_def emit_def init_world_def)
    show "finishedCalls (trace w3) = []" using q by (simp add: quiet_def emit_def init_world_def)
    show "setTotalWorkCalls (trace w3) = [length ?reqs]"
      using q by (simp add: quiet_def emit_def init_world_def)
  qed
qed

lemma performSearch_unfold:
  assumes "resumeAll env cfg (candidates env cfg) sched
             (launch env cfg (candidates env cfg) []
                (emit (SetTotalWork (length (candidates env cfg))) init_world)) = (promises, w3)"
  shows "performSearch env cfg sched =
           (case promiseAll promises of
              Pending \<Rightarrow> (Pending, w3)
            | Rejected e \<Rightarrow> (Rejected e, w3)
            | Fulfilled resultsWithNull \<Rightarrow>
                if isCanceled env (calls w3)
                then (Fulfilled (), emit (SearchFinishedCallback False) (w3\<lparr>calls := Suc (calls w3)\<rparr>))
                else (Fulfilled (),
                      emit (SearchFinishedCallback True)
                        (emit Done
                           (emitResults
                              (arraySort (\<lambda>r1 r2. localeCompare env (label r1) (label r2))
                                 (nonNull resultsWithNull))
                              (w3\<lparr>calls := Suc (calls w3)\<rparr>)))))"
  using assms by (simp add: performSearch_def Let_def progress_isCanceled_def split: promise.splits)

lemma performSearch_resultCalls:
  "\<exists>rs. resultCalls (trace (snd (performSearch env cfg sched))) =
          filter (\<lambda>r. 0 < matchesCount r)
            (arraySort (\<lambda>r1 r2. localeCompare env (label r1) (label r2)) rs)"
proof -
  obtain promises w3 where
    run: "resumeAll env cfg (candidates env cfg) sched
       (launch env cfg (candidates env cfg) []
          (emit (SetTotalWork (length (candidates env cfg))) init_world)) = (promises, w3)"
    and quiet: "resultCalls (trace w3) = []"
    by (rule performSearch_tasks)
  have nil: "filter (\<lambda>r. 0 < matchesCount r)
               (arraySort (\<lambda>r1 r2. localeCompare env (label r1) (label r2)) []) = []"
    by (simp add: arraySort_def)
  show ?thesis
  proof (cases "promiseAll promises")
    case Pending
    then show ?thesis
      using quiet nil by (intro exI [of _ "[]"]) (simp add: performSearch_unfold [OF run])
  next
    case (Rejected e)
    then show ?thesis
      using quiet nil by (intro exI [of _ "[]"]) (simp add: performSearch_unfold [OF run])
  next
    case (Fulfilled vs)
    show ?thesis
    proof (cases "isCanceled env (calls w3)")
      case True
      then show ?thesis
        using quiet nil Fulfilled
        by (intro exI [of _ "[]"])
          (simp add: performSearch_unfold [OF run] emit_def resultCalls_append)
    next
      case False
      then show ?thesis
        using quiet Fulfilled
        by (intro exI [of _ "nonNull vs"])
          (simp add: performSearch_unfold [OF run] emit_def emitResults_world resultCalls_append
            resultCalls_map)
    qed
  qed
qed



text \<open>
  Claim C8 (results without locations are never surfaced). In every run, every result
  handed to \<^verbatim>\<open>searchResultCallback\<close> has a positive \<^verbatim>\<open>matchesCount()\<close>. In the witness two
  searches complete and one of them finds nothing.
\<close>

theorem empty_results_never_surfaced:
  "list_all (\<lambda>r. 0 < matchesCount r) (resultCalls (trace (snd (performSearch env cfg sched))))"
proof -
  obtain rs where "resultCalls (trace (snd (performSearch env cfg sched))) =
      filter (\<lambda>r. 0 < matchesCount r) (arraySort (\<lambda>r1 r2. localeCompare env (label r1) (label r2)) rs)"
    using performSearch_resultCalls by blast
  then show ?thesis by (simp add: list_all_iff)
qed

theorem empty_results_never_surfaced_witness:
  "list_all (\<lambda>r. 0 < matchesCount r)
     (resultCalls (trace (snd (performSearch
        (literalEnv [fileRequest ''b.txt'' False, fileRequest ''a.js'' False] noBody (\<lambda>k. False))
        (plainConfig ''js'' [''js'']) []))))
   \<and> map label (resultCalls (trace (snd (performSearch
        (literalEnv [fileRequest ''b.txt'' False, fileRequest ''a.js'' False] noBody (\<lambda>k. False))
        (plainConfig ''js'' [''js'']) [])))) = [''a.js'']
   \<and> workedCalls (trace (snd (performSearch
        (literalEnv [fileRequest ''b.txt'' False, fileRequest ''a.js'' False] noBody (\<lambda>k. False))
        (plainConfig ''js'' [''js'']) []))) = 2"
proof -
  let ?env = "literalEnv [fileRequest ''b.txt'' False, fileRequest ''a.js'' False] noBody (\<lambda>k. False)"
  let ?cfg = "plainConfig ''js'' [''js'']"
  have "map label (resultCalls (trace (snd (performSearch ?env ?cfg [])))) = [''a.js'']"
    by (simp add: run_defs)
  moreover have "workedCalls (trace (snd (performSearch ?env ?cfg []))) = 2"
    by (simp add: run_defs workedCalls_def)
  ultimately show ?thesis
    using empty_results_never_surfaced [of ?env ?cfg "[]"] by simp
qed

subsection \<open>Runs without cancellation\<close>

lemma launch_conditional:
  assumes "regExpsOf env cfg = Inr regExps"
    and "\<forall>k < length promises + length rqs. \<not> isCanceled env k"
    and "calls w = settledCount promises"
    and "workedCalls (trace w) = settledCount promises"
    and "list_all2 (taskState env cfg) promises done"
  shows "case launch env cfg rqs promises w of
           (promises', w') \<Rightarrow>
             calls w' = settledCount promises' \<and> workedCalls (trace w') = settledCount promises' \<and>
             list_all2 (taskState env cfg) promises' (done @ rqs)"
  using assms(2-)
proof (induction rqs arbitrary: promises w "done")
  case Nil
  then show ?case by simp
next
  case (Cons rq rqs)
  show ?case
  proof (cases "isTextType rq")
    case True
    have "taskState env cfg Pending rq"
      using True by (simp add: taskState_def)
    then have "list_all2 (taskState env cfg) (promises @ [Pending]) (done @ [rq])"
      using Cons.prems(4) by (intro list_all2_appendI) simp_all
    with Cons.IH [where promises = "promises @ [Pending]" and w = w and ?done = "done @ [rq]"]
      Cons.prems True
    show ?thesis by (simp add: settledCount_snoc)
  next
    case False
    have "calls w < length promises + length (rq # rqs)"
      using Cons.prems(2) settledCount_le [of promises] by simp
    then have nc: "\<not> isCanceled env (calls w)"
      using Cons.prems(1) by blast
    let ?p = "Fulfilled (Some (resultOf env cfg rq))"
    let ?w = "emit Worked (w\<lparr>calls := Suc (calls w)\<rparr>)"
    have sr: "searchRequest env cfg rq w = (Inr (Some (resultOf env cfg rq)), ?w)"
      using searchRequest_closed [OF assms(1) nc] by (simp add: resultOf_def)
    have "taskState env cfg ?p rq"
      by (simp add: taskState_def)
    then have "list_all2 (taskState env cfg) (promises @ [?p]) (done @ [rq])"
      using Cons.prems(4) by (intro list_all2_appendI) simp_all
    with Cons.IH [where promises = "promises @ [?p]" and w = ?w and ?done = "done @ [rq]"]
      Cons.prems False sr
    show ?thesis
      by (simp add: settledCount_snoc settle_def emit_def workedCalls_append)
        (simp add: workedCalls_def)
  qed
qed

lemma resume_conditional:
  assumes "regExpsOf env cfg = Inr regExps"
    and "\<forall>k < length reqs. \<not> isCanceled env k"
    and "calls w = settledCount promises"
    and "workedCalls (trace w) = settledCount promises"
    and "list_all2 (taskState env cfg) promises reqs"
  shows "case resume env cfg reqs i (promises, w) of
           (promises', w') \<Rightarrow>
             calls w' = settledCount promises' \<and> workedCalls (trace w') = settledCount promises' \<and>
             list_all2 (taskState env cfg) promises' reqs \<and>
             (\<forall>j < length reqs. promises' ! j = Pending \<longrightarrow> promises ! j = Pending \<and> j \<noteq> i)"
proof (cases "i < length promises \<and> i < length reqs \<and> promises ! i = Pending")
  case False
  have "length promises = length reqs"
    using assms(5) by (rule list_all2_lengthD)
  with False assms show ?thesis by (auto simp: resume_def)
next
  case True
  have len: "length promises = length reqs"
    using assms(5) by (rule list_all2_lengthD)
  have "calls w < length reqs"
    using assms(3) settledCount_less [of i promises] True len by simp
  then have nc: "\<not> isCanceled env (calls w)"
    using assms(2) by blast
  let ?p = "Fulfilled (Some (resultOf env cfg (reqs ! i)))"
  let ?w = "emit Worked (w\<lparr>calls := Suc (calls w)\<rparr>)"
  have sr: "searchRequest env cfg (reqs ! i) w = (Inr (Some (resultOf env cfg (reqs ! i))), ?w)"
    using searchRequest_closed [OF assms(1) nc] by (simp add: resultOf_def)
  have r: "resume env cfg reqs i (promises, w) = (promises[i := ?p], ?w)"
    using True sr by (simp add: resume_def settle_def)
  have "list_all2 (taskState env cfg) (promises[i := ?p]) (reqs[i := reqs ! i])"
    using assms(5) by (rule list_all2_update_cong) (simp add: taskState_def)
  then have l: "list_all2 (taskState env cfg) (promises[i := ?p]) reqs"
    by simp
  have p: "\<forall>j < length reqs. promises[i := ?p] ! j = Pending \<longrightarrow> promises ! j = Pending \<and> j \<noteq> i"
    using len True by (auto simp: nth_list_update split: if_splits)
  show ?thesis
    unfolding r using assms(3,4) True l p
    by (simp add: settledCount_update emit_def workedCalls_append) (simp add: workedCalls_def)
qed

lemma resumeAll_conditional:
  assumes "regExpsOf env cfg = Inr regExps"
    and "\<forall>k < length reqs. \<not> isCanceled env k"
    and "calls w = settledCount promises"
    and "workedCalls (trace w) = settledCount promises"
    and "list_all2 (taskState env cfg) promises reqs"
  shows "case resumeAll env cfg reqs sched (promises, w) of
           (promises', w') \<Rightarrow>
             calls w' = settledCount promises' \<and> workedCalls (trace w') = settledCount promises' \<and>
             list_all2 (taskState env cfg) promises' reqs \<and>
             (\<forall>j < length reqs. promises' ! j = Pending \<longrightarrow> promises ! j = Pending \<and> j \<notin> set sched)"
  using assms(3-)
proof (induction sched arbitrary: promises w)
  case Nil
  then show ?case by simp
next
  case (Cons i sched)
  obtain p1 w1 where r: "resume env cfg reqs i (promises, w) = (p1, w1)"
    by (cases "resume env cfg reqs i (promises, w)")
  have step: "calls w1 = settledCount p1" "workedCalls (trace w1) = settledCount p1"
    "list_all2 (taskState env cfg) p1 reqs"
    "\<forall>j < length reqs. p1 ! j = Pending \<longrightarrow> promises ! j = Pending \<and> j \<noteq> i"
    using resume_conditional [OF assms(1,2) Cons.prems, of i] r by simp_all
  from Cons.IH [OF step(1,2,3)] step(4) r show ?case
    by (auto split: prod.splits)
qed

lemma tasks_all_settled:
  assumes "regExpsOf env cfg = Inr regExps"
    and "\<forall>k < length (candidates env cfg). \<not> isCanceled env k"
    and "\<forall>i < length (candidates env cfg). isTextType (candidates env cfg ! i) \<longrightarrow> i \<in> set sched"
  shows "\<exists>w3. resumeAll env cfg (candidates env cfg) sched
                (launch env cfg (candidates env cfg) []
                   (emit (SetTotalWork (length (candidates env cfg))) init_world)) =
                (map (\<lambda>rq. Fulfilled (Some (resultOf env cfg rq))) (candidates env cfg), w3) \<and>
              calls w3 = length (candidates env cfg) \<and>
              workedCalls (trace w3) = length (candidates env cfg)"
proof -
  let ?reqs = "candidates env cfg"
  let ?w1 = "emit (SetTotalWork (length ?reqs)) init_world"
  obtain p2 w2 where l: "launch env cfg ?reqs [] ?w1 = (p2, w2)"
    by (cases "launch env cfg ?reqs [] ?w1")
  obtain p3 w3 where r: "resumeAll env cfg ?reqs sched (p2, w2) = (p3, w3)"
    by (cases "resumeAll env cfg ?reqs sched (p2, w2)")
  have "case launch env cfg ?reqs [] ?w1 of
          (promises', w') \<Rightarrow>
            calls w' = settledCount promises' \<and> workedCalls (trace w') = settledCount promises' \<and>
            list_all2 (taskState env cfg) promises' ([] @ ?reqs)"
    using assms(2)
    by (intro launch_conditional [OF assms(1)])
      (simp_all add: settledCount_def emit_def init_world_def workedCalls_def)
  then have l': "calls w2 = settledCount p2" "workedCalls (trace w2) = settledCount p2"
    "list_all2 (taskState env cfg) p2 ?reqs"
    using l by simp_all
  have r': "calls w3 = settledCount p3" "workedCalls (trace w3) = settledCount p3"
    "list_all2 (taskState env cfg) p3 ?reqs"
    "\<forall>j < length ?reqs. p3 ! j = Pending \<longrightarrow> p2 ! j = Pending \<and> j \<notin> set sched"
    using resumeAll_conditional [OF assms(1,2) l', of sched] r by simp_all
  have len: "length p3 = length ?reqs" "length p2 = length ?reqs"
    using r'(3) l'(3) by (simp_all add: list_all2_lengthD)
  have settled: "p3 ! j = Fulfilled (Some (resultOf env cfg (?reqs ! j)))" if j: "j < length ?reqs" for j
  proof -
    have "p3 ! j \<noteq> Pending"
    proof
      assume "p3 ! j = Pending"
      then have "p2 ! j = Pending" "j \<notin> set sched"
        using r'(4) j by simp_all
      moreover have "taskState env cfg (p2 ! j) (?reqs ! j)"
        using l'(3) j len by (simp add: list_all2_conv_all_nth)
      ultimately show False
        using assms(3) j by (simp add: taskState_def)
    qed
    moreover have "taskState env cfg (p3 ! j) (?reqs ! j)"
      using r'(3) j len by (simp add: list_all2_conv_all_nth)
    ultimately show ?thesis by (simp add: taskState_def)
  qed
  have eq: "p3 = map (\<lambda>rq. Fulfilled (Some (resultOf env cfg rq))) ?reqs"
    using len settled by (intro nth_equalityI) simp_all
  have "settledCount p3 = length ?reqs"
    unfolding eq by (simp add: settledCount_def)
  with r' l r eq show ?thesis by simp
qed

lemma performSearch_completes:
  assumes "regExpsOf env cfg = Inr regExps"
    and "\<forall>k < length (candidates env cfg). \<not> isCanceled env k"
    and "\<forall>i < length (candidates env cfg). isTextType (candidates env cfg ! i) \<longrightarrow> i \<in> set sched"
  shows "\<exists>w3. calls w3 = length (candidates env cfg) \<and>
              workedCalls (trace w3) = length (candidates env cfg) \<and>
              resultCalls (trace w3) = [] \<and>
              performSearch env cfg sched =
                (if isCanceled env (length (candidates env cfg))
                 then (Fulfilled (), emit (SearchFinishedCallback False) (w3\<lparr>calls := Suc (calls w3)\<rparr>))
                 else (Fulfilled (),
                       emit (SearchFinishedCallback True)
                         (emit Done
                            (emitResults
                               (arraySort (\<lambda>r1 r2. localeCompare env (label r1) (label r2))
                                  (map (resultOf env cfg) (candidates env cfg)))
                               (w3\<lparr>calls := Suc (calls w3)\<rparr>)))))"
proof -
  obtain w3 where
    run: "resumeAll env cfg (candidates env cfg) sched
            (launch env cfg (candidates env cfg) []
               (emit (SetTotalWork (length (candidates env cfg))) init_world)) =
          (map (\<lambda>rq. Fulfilled (Some (resultOf env cfg rq))) (candidates env cfg), w3)"
    and c: "calls w3 = length (candidates env cfg)"
    and k: "workedCalls (trace w3) = length (candidates env cfg)"
    using tasks_all_settled [OF assms] by blast
  obtain p' w' where
    run': "resumeAll env cfg (candidates env cfg) sched
            (launch env cfg (candidates env cfg) []
               (emit (SetTotalWork (length (candidates env cfg))) init_world)) = (p', w')"
    and q: "resultCalls (trace w') = []"
    by (rule performSearch_tasks)
  have q3: "resultCalls (trace w3) = []"
    using run run' q by simp
  have m: "map (\<lambda>rq. Fulfilled (Some (resultOf env cfg rq))) (candidates env cfg) =
           map Fulfilled (map (\<lambda>rq. Some (resultOf env cfg rq)) (candidates env cfg))"
    by simp
  have n: "nonNull (map (\<lambda>rq. Some (resultOf env cfg rq)) rqs) = map (resultOf env cfg) rqs" for rqs
    by (induction rqs) simp_all
  have "performSearch env cfg sched =
          (if isCanceled env (length (candidates env cfg))
           then (Fulfilled (), emit (SearchFinishedCallback False) (w3\<lparr>calls := Suc (calls w3)\<rparr>))
           else (Fulfilled (),
                 emit (SearchFinishedCallback True)
                   (emit Done
                      (emitResults
                         (arraySort (\<lambda>r1 r2. localeCompare env (label r1) (label r2))
                            (map (resultOf env cfg) (candidates env cfg)))
                         (w3\<lparr>calls := Suc (calls w3)\<rparr>)))))"
    unfolding performSearch_unfold [OF run] m promiseAll_map_Fulfilled
    by (simp add: n c)
  with c k q3 show ?thesis by blast
qed

lemma performSearch_emitted:
  assumes "regExpsOf env cfg = Inr regExps"
    and "\<forall>k \<le> length (candidates env cfg). \<not> isCanceled env k"
    and "\<forall>i < length (candidates env cfg). isTextType (candidates env cfg ! i) \<longrightarrow> i \<in> set sched"
  shows "resultCalls (trace (snd (performSearch env cfg sched))) =
           filter (\<lambda>r. 0 < matchesCount r)
             (arraySort (\<lambda>r1 r2. localeCompare env (label r1) (label r2))
                (map (resultOf env cfg) (candidates env cfg)))"
proof -
  have h2: "\<forall>k < length (candidates env cfg). \<not> isCanceled env k"
    using assms(2) by simp
  have nc: "\<not> isCanceled env (length (candidates env cfg))"
    using assms(2) by simp
  from performSearch_completes [OF assms(1) h2 assms(3)] obtain w3 where
    q: "resultCalls (trace w3) = []"
    and p: "performSearch env cfg sched =
              (if isCanceled env (length (candidates env cfg))
               then (Fulfilled (), emit (SearchFinishedCallback False) (w3\<lparr>calls := Suc (calls w3)\<rparr>))
               else (Fulfilled (),
                     emit (SearchFinishedCallback True)
                       (emit Done
                          (emitResults
                             (arraySort (\<lambda>r1 r2. localeCompare env (label r1) (label r2))
                                (map (resultOf env cfg) (candidates env cfg)))
                             (w3\<lparr>calls := Suc (calls w3)\<rparr>)))))"
    by blast
  show ?thesis
    unfolding p using q nc
    by (simp add: emit_def emitResults_world resultCalls_append resultCalls_map)
qed




subsection \<open>The order of the results\<close>

lemma set_insertSorted: "set (insertSorted cmp x xs) = insert x (set xs)"
  by (induction xs) auto

lemma sorted_insertSorted:
  assumes "consistentCompare cmp" and "sorted_wrt (\<lambda>a b. cmp a b \<le> 0) xs"
  shows "sorted_wrt (\<lambda>a b. cmp a b \<le> 0) (insertSorted cmp x xs)"
  using assms(2)
proof (induction xs)
  case Nil
  show ?case by simp
next
  case (Cons y ys)
  have total: "\<And>a b. cmp a b \<le> 0 \<or> cmp b a \<le> 0"
    and trans: "\<And>a b c. cmp a b \<le> 0 \<Longrightarrow> cmp b c \<le> 0 \<Longrightarrow> cmp a c \<le> 0"
    using assms(1) unfolding consistentCompare_def by blast+
  show ?case
  proof (cases "cmp x y \<le> 0")
    case True
    with Cons.prems show ?thesis by (auto intro: trans)
  next
    case False
    then have "cmp y x \<le> 0" using total [of x y] by simp
    with False Cons show ?thesis by (auto simp: set_insertSorted)
  qed
qed

lemma sorted_arraySort:
  "consistentCompare cmp \<Longrightarrow> sorted_wrt (\<lambda>a b. cmp a b \<le> 0) (arraySort cmp xs)"
  unfolding arraySort_def by (induction xs) (simp_all add: sorted_insertSorted)

lemma consistentCompare_label:
  "consistentCompare cmp \<Longrightarrow> consistentCompare (\<lambda>r1 r2. cmp (label r1) (label r2))"
  unfolding consistentCompare_def by blast

lemma consistentCompare_codeUnitCompare: "consistentCompare codeUnitCompare"
  unfolding consistentCompare_def codeUnitCompare_def by (auto split: if_splits)

lemma mset_insertSorted: "mset (insertSorted cmp x xs) = add_mset x (mset xs)"
  by (induction xs) simp_all

lemma mset_arraySort: "mset (arraySort cmp xs) = mset xs"
  unfolding arraySort_def by (induction xs) (simp_all add: mset_insertSorted)

text \<open>
  Claim C4 (sorted emission). For a consistent \<^verbatim>\<open>localeCompare\<close>, the results reach
  \<^verbatim>\<open>searchResultCallback\<close> in ascending order of their labels, in every run. In a run in
  which the tokens compile, no check of \<^verbatim>\<open>isCanceled\<close> answers that the run is cancelled
  and every suspended task resumes, \<^verbatim>\<open>performSearch\<close> returns and the surviving results
  are delivered: with \<open>rs\<close> the results that \<^verbatim>\<open>_searchRequest\<close> returns for the candidates,
  the callback receives those of \<open>rs\<close> that have a location, each as often as it is in
  \<open>rs\<close>, in the order of the sorted array; and the sequence is the same for any two orders
  \<open>sched\<close> and \<open>sched'\<close> in which the suspended tasks resume. In the witness the results
  are labelled \<^verbatim>\<open>c.js\<close>, \<^verbatim>\<open>a.js\<close>, \<^verbatim>\<open>b.js\<close> in the order of the log, the third task resumes
  first, and the callback receives \<^verbatim>\<open>a.js\<close>, \<^verbatim>\<open>b.js\<close>, \<^verbatim>\<open>c.js\<close>.
\<close>

theorem sorted_emission:
  assumes "consistentCompare (localeCompare env)"
  shows "sorted_wrt (\<lambda>r1 r2. localeCompare env (label r1) (label r2) \<le> 0)
           (resultCalls (trace (snd (performSearch env cfg sched)))) \<and>
         (regExpsOf env cfg = Inr regExps \<longrightarrow>
          (\<forall>k \<le> length (candidates env cfg). \<not> isCanceled env k) \<longrightarrow>
          (\<forall>i < length (candidates env cfg). isTextType (candidates env cfg ! i) \<longrightarrow> i \<in> set sched) \<longrightarrow>
          fst (performSearch env cfg sched) = Fulfilled () \<and>
          (\<exists>rs. length rs = length (candidates env cfg) \<and>
                (\<forall>i < length (candidates env cfg). \<forall>w. \<not> isCanceled env (calls w) \<longrightarrow>
                   fst (searchRequest env cfg (candidates env cfg ! i) w) = Inr (Some (rs ! i))) \<and>
                resultCalls (trace (snd (performSearch env cfg sched))) =
                  filter (\<lambda>r. 0 < matchesCount r)
                    (arraySort (\<lambda>r1 r2. localeCompare env (label r1) (label r2)) rs) \<and>
                mset (resultCalls (trace (snd (performSearch env cfg sched)))) =
                  mset (filter (\<lambda>r. 0 < matchesCount r) rs))) \<and>
         (regExpsOf env cfg = Inr regExps \<longrightarrow>
          (\<forall>k \<le> length (candidates env cfg). \<not> isCanceled env k) \<longrightarrow>
          (\<forall>i < length (candidates env cfg).
             isTextType (candidates env cfg ! i) \<longrightarrow> i \<in> set sched \<and> i \<in> set sched') \<longrightarrow>
          resultCalls (trace (snd (performSearch env cfg sched))) =
          resultCalls (trace (snd (performSearch env cfg sched'))))"
proof (intro conjI impI)
  obtain rs where "resultCalls (trace (snd (performSearch env cfg sched))) =
      filter (\<lambda>r. 0 < matchesCount r) (arraySort (\<lambda>r1 r2. localeCompare env (label r1) (label r2)) rs)"
    using performSearch_resultCalls by blast
  then show "sorted_wrt (\<lambda>r1 r2. localeCompare env (label r1) (label r2) \<le> 0)
           (resultCalls (trace (snd (performSearch env cfg sched))))"
    using sorted_arraySort [OF consistentCompare_label [OF assms], of rs]
    by (simp add: sorted_wrt_filter)
next
  assume h: "regExpsOf env cfg = Inr regExps"
    "\<forall>k \<le> length (candidates env cfg). \<not> isCanceled env k"
    "\<forall>i < length (candidates env cfg). isTextType (candidates env cfg ! i) \<longrightarrow> i \<in> set sched"
  have h2: "\<forall>k < length (candidates env cfg). \<not> isCanceled env k"
    using h(2) by simp
  show "fst (performSearch env cfg sched) = Fulfilled ()"
    using performSearch_completes [OF h(1) h2 h(3)] by auto
  let ?rs = "map (resultOf env cfg) (candidates env cfg)"
  have e: "resultCalls (trace (snd (performSearch env cfg sched))) =
             filter (\<lambda>r. 0 < matchesCount r)
               (arraySort (\<lambda>r1 r2. localeCompare env (label r1) (label r2)) ?rs)"
    using h by (rule performSearch_emitted)
  have t: "\<forall>i < length (candidates env cfg). \<forall>w. \<not> isCanceled env (calls w) \<longrightarrow>
             fst (searchRequest env cfg (candidates env cfg ! i) w) = Inr (Some (?rs ! i))"
    by (simp add: searchRequest_closed [OF h(1)] resultOf_def)
  have m: "mset (resultCalls (trace (snd (performSearch env cfg sched)))) =
             mset (filter (\<lambda>r. 0 < matchesCount r) ?rs)"
    unfolding e by (simp only: mset_filter mset_arraySort)
  show "\<exists>rs. length rs = length (candidates env cfg) \<and>
                (\<forall>i < length (candidates env cfg). \<forall>w. \<not> isCanceled env (calls w) \<longrightarrow>
                   fst (searchRequest env cfg (candidates env cfg ! i) w) = Inr (Some (rs ! i))) \<and>
                resultCalls (trace (snd (performSearch env cfg sched))) =
                  filter (\<lambda>r. 0 < matchesCount r)
                    (arraySort (\<lambda>r1 r2. localeCompare env (label r1) (label r2)) rs) \<and>
                mset (resultCalls (trace (snd (performSearch env cfg sched)))) =
                  mset (filter (\<lambda>r. 0 < matchesCount r) rs)"
    using e t m by (intro exI [of _ ?rs]) simp
next
  assume h: "regExpsOf env cfg = Inr regExps"
    "\<forall>k \<le> length (candidates env cfg). \<not> isCanceled env k"
    "\<forall>i < length (candidates env cfg).
           isTextType (candidates env cfg ! i) \<longrightarrow> i \<in> set sched \<and> i \<in> set sched'"
  have s: "\<forall>i < length (candidates env cfg). isTextType (candidates env cfg ! i) \<longrightarrow> i \<in> set sched"
    and s': "\<forall>i < length (candidates env cfg). isTextType (candidates env cfg ! i) \<longrightarrow> i \<in> set sched'"
    using h(3) by simp_all
  show "resultCalls (trace (snd (performSearch env cfg sched))) =
        resultCalls (trace (snd (performSearch env cfg sched')))"
    using performSearch_emitted [OF h(1,2) s] performSearch_emitted [OF h(1,2) s'] by simp
qed

theorem sorted_emission_witness:
  "fst (performSearch
      (literalEnv [fileRequest ''c.js'' True, fileRequest ''a.js'' True, fileRequest ''b.js'' True] noBody
         (\<lambda>k. False))
      (plainConfig ''js'' [''js'']) [2, 0, 1]) = Fulfilled ()
   \<and> map label (resultCalls (trace (snd (performSearch
      (literalEnv [fileRequest ''c.js'' True, fileRequest ''a.js'' True, fileRequest ''b.js'' True] noBody
         (\<lambda>k. False))
      (plainConfig ''js'' [''js'']) [2, 0, 1])))) = [''a.js'', ''b.js'', ''c.js'']
   \<and> resultCalls (trace (snd (performSearch
      (literalEnv [fileRequest ''c.js'' True, fileRequest ''a.js'' True, fileRequest ''b.js'' True] noBody
         (\<lambda>k. False))
      (plainConfig ''js'' [''js'']) [2, 0, 1]))) =
     resultCalls (trace (snd (performSearch
      (literalEnv [fileRequest ''c.js'' True, fileRequest ''a.js'' True, fileRequest ''b.js'' True] noBody
         (\<lambda>k. False))
      (plainConfig ''js'' [''js'']) [0, 1, 2])))"
proof -
  let ?env = "literalEnv [fileRequest ''c.js'' True, fileRequest ''a.js'' True, fileRequest ''b.js'' True]
                noBody (\<lambda>k. False)"
  let ?cfg = "plainConfig ''js'' [''js'']"
  have c: "candidates ?env ?cfg = [fileRequest ''c.js'' True, fileRequest ''a.js'' True, fileRequest ''b.js'' True]"
    by (simp add: candidates_def literalEnv_def plainConfig_def)
  have h0: "consistentCompare (localeCompare ?env)"
    using consistentCompare_codeUnitCompare by (simp add: literalEnv_def)
  have h1: "regExpsOf ?env ?cfg = Inr [(''js'', False)]"
    by (simp add: regExpsOf_def literalEnv_def plainConfig_def literal_new_def)
  have h2: "\<forall>k \<le> length (candidates ?env ?cfg). \<not> isCanceled ?env k"
    by (simp add: literalEnv_def)
  have h3: "\<forall>i < length (candidates ?env ?cfg).
              isTextType (candidates ?env ?cfg ! i) \<longrightarrow> i \<in> set [2, 0, 1] \<and> i \<in> set [0, 1, 2]"
    unfolding c by (simp add: less_Suc_eq numeral_3_eq_3)
  have h3': "\<forall>i < length (candidates ?env ?cfg). isTextType (candidates ?env ?cfg ! i) \<longrightarrow> i \<in> set [2, 0, 1]"
    using h3 by blast
  have e: "map label (resultCalls (trace (snd (performSearch ?env ?cfg [2, 0, 1])))) =
             [''a.js'', ''b.js'', ''c.js'']"
    by (simp add: run_defs)
  note t = sorted_emission [OF h0, of ?cfg "[2, 0, 1]" "[(''js'', False)]" "[0, 1, 2]"]
  have "fst (performSearch ?env ?cfg [2, 0, 1]) = Fulfilled ()"
    using t h1 h2 h3' by blast
  moreover have "resultCalls (trace (snd (performSearch ?env ?cfg [2, 0, 1]))) =
      resultCalls (trace (snd (performSearch ?env ?cfg [0, 1, 2])))"
    using t h1 h2 h3 by blast
  ultimately show ?thesis using e by simp
qed

end
